theory Spec2Isabelle
  imports Complex_Main
begin

text \<open>
  A model of the listing scraper \<open>scraping2.py\<close>, function by function and under the
  names of the source: the text normalizers, the extraction of a listing card through
  chains of selectors, the enrichment from the detail page with its cache, the scrape of
  one results page, and the run over the pages with retries and deduplication.

  The browser and the site are outside the program. What they answer is a parameter of
  the model; a call that can raise returns a sum, and the objects the code changes in
  place (the two tabs, the cache, the set of seen ids, the output table) are passed in and
  returned. Pauses, printing, the timestamp of a row and the files written for diagnosis
  are left out; the sleeps of the retry loop are recorded as durations.
\<close>

section \<open>Text\<close>

text \<open>
  A Python \<open>str\<close> is a sequence of Unicode code points, and \<open>len\<close>, slicing and the
  regular expressions of the scraper count code points. A string is therefore a list of
  code points (natural numbers); \<open>ascii\<close> turns an ASCII literal into such a list.

  \<open>isspace\<close> is the whitespace of \<open>str.strip()\<close> and of \<open>\s\<close> in a \<open>str\<close> pattern (both
  use the same Unicode table). \<open>isdigit\<close> is \<open>\d\<close> on ASCII text: Python's \<open>\d\<close> and
  \<open>int()\<close> also accept the decimal digits of other scripts, which the scraped site does
  not use; the model reads text whose decimal digits are the ASCII ones.
\<close>

type_synonym uchar = nat
type_synonym str = "uchar list"

definition ascii :: "string \<Rightarrow> str" where
  "ascii cs = map of_char cs"

definition isspace :: "uchar \<Rightarrow> bool" where
  "isspace c \<longleftrightarrow>
     (9 \<le> c \<and> c \<le> 13) \<or> (28 \<le> c \<and> c \<le> 32) \<or> c = 0x85 \<or> c = 0xA0 \<or> c = 0x1680 \<or>
     (0x2000 \<le> c \<and> c \<le> 0x200A) \<or> c = 0x2028 \<or> c = 0x2029 \<or> c = 0x202F \<or>
     c = 0x205F \<or> c = 0x3000"

definition isdigit :: "uchar \<Rightarrow> bool" where
  "isdigit c \<longleftrightarrow> 48 \<le> c \<and> c \<le> 57"

text \<open>\<open>s.strip()\<close>: whitespace removed at both ends.\<close>

definition strip :: "str \<Rightarrow> str" where
  "strip s = rev (dropWhile isspace (rev (dropWhile isspace s)))"

text \<open>\<open>re.sub(r"\s+", " ", s)\<close>: every maximal run of whitespace becomes one space.\<close>

function collapse_ws :: "str \<Rightarrow> str" where
  "collapse_ws [] = []"
| "collapse_ws (c # cs) =
     (if isspace c then 32 # collapse_ws (dropWhile isspace cs) else c # collapse_ws cs)"
  by pat_completeness auto
termination
  by (relation "measure length") (auto simp: length_dropWhile_le less_Suc_eq_le)

text \<open>
  \<^verbatim>\<open>
  def clean_text(s: Optional[str]) -> Optional[str]:
      if not s:
          return None
      s = s.strip()
      s = re.sub(r"\s+", " ", s)
      return s or None
  \<close>
\<close>

definition clean_text :: "str option \<Rightarrow> str option" where
  "clean_text s =
     (case s of
        None \<Rightarrow> None
      | Some t \<Rightarrow>
          if t = [] then None
          else (let r = collapse_ws (strip t) in if r = [] then None else Some r))"

definition parse_price_raw :: "str option \<Rightarrow> str option" where
  "parse_price_raw s = clean_text s"

text \<open>Whitespace in a collapsed text: only single spaces, never two in a row.\<close>

fun single_spaced :: "str \<Rightarrow> bool" where
  "single_spaced [] = True"
| "single_spaced (c # cs) =
     ((isspace c \<longrightarrow> c = 32 \<and> (case cs of [] \<Rightarrow> True | d # _ \<Rightarrow> \<not> isspace d))
      \<and> single_spaced cs)"

subsection \<open>String helpers\<close>

text \<open>Truthiness of an \<open>Optional[str]\<close>: \<open>if s\<close> holds for a non-empty string.\<close>

definition truthy :: "str option \<Rightarrow> bool" where
  "truthy s \<longleftrightarrow> s \<noteq> None \<and> s \<noteq> Some []"

text \<open>\<open>s.startswith(p)\<close>, and \<open>p in s\<close> for strings.\<close>

definition starts_with :: "str \<Rightarrow> str \<Rightarrow> bool" where
  "starts_with p s \<longleftrightarrow> take (length p) s = p"

fun contains :: "str \<Rightarrow> str \<Rightarrow> bool" where
  "contains p [] = (p = [])"
| "contains p (c # cs) = (starts_with p (c # cs) \<or> contains p cs)"

text \<open>
  \<open>re.search\<close>: the pattern is tried at every start position from the left, the end of the
  text included; \<open>m\<close> is the pattern anchored at the start of its argument and returns
  the captured group.
\<close>

fun re_search :: "(str \<Rightarrow> 'a option) \<Rightarrow> str \<Rightarrow> 'a option" where
  "re_search m [] = m []"
| "re_search m (c # cs) = (case m (c # cs) of Some g \<Rightarrow> Some g | None \<Rightarrow> re_search m cs)"

text \<open>\<open>s.rstrip("/")\<close> and \<open>s.split("/")\<close> for a one-character argument.\<close>

definition rstrip_char :: "uchar \<Rightarrow> str \<Rightarrow> str" where
  "rstrip_char d s = rev (dropWhile (\<lambda>c. c = d) (rev s))"

fun split_on :: "uchar \<Rightarrow> str \<Rightarrow> str list" where
  "split_on d [] = [[]]"
| "split_on d (c # cs) =
     (if c = d then [] # split_on d cs
      else (case split_on d cs of [] \<Rightarrow> [[c]] | x # xs \<Rightarrow> (c # x) # xs))"

text \<open>
  \<open>str.lower()\<close> on Basic Latin and Latin-1. It also lowers the capital letters of other
  scripts; none of them becomes a character that a pattern searched on lowered text looks
  for (\<open>sector\<close>, \<open>ul\<close>, \<open>camere\<close>, \<open>camera\<close>, \<open>m\<close>, the superscript two, digits, whitespace).
\<close>

definition lower_char :: "uchar \<Rightarrow> uchar" where
  "lower_char c =
     (if (65 \<le> c \<and> c \<le> 90) \<or> (0xC0 \<le> c \<and> c \<le> 0xDE \<and> c \<noteq> 0xD7) then c + 32 else c)"

definition lower :: "str \<Rightarrow> str" where
  "lower s = map lower_char s"

text \<open>\<open>int(ds)\<close> for a run of digits.\<close>

definition int_of_digits :: "str \<Rightarrow> nat" where
  "int_of_digits ds = foldl (\<lambda>n c. 10 * n + (c - 48)) 0 ds"

subsection \<open>Field Normalizer\<close>

text \<open>
  \<^verbatim>\<open>
  def listing_id_from_link(link: Optional[str]) -> Optional[str]:
      if not link:
          return None
      m = re.search(r"-(\d+)\.html", link)
      if m:
          return m.group(1)
      m2 = re.search(r"[?&]id=(\d+)", link)
      if m2:
          return m2.group(1)
      return link.rstrip("/").split("/")[-1][:80]
  \<close>
  The two patterns anchored at a position. \<open>\d+\<close> is greedy and what follows it cannot
  start with a digit, so the group is the maximal run of digits.
\<close>

definition match_html_id :: "str \<Rightarrow> str option" where
  "match_html_id s =
     (case s of
        [] \<Rightarrow> None
      | c # r \<Rightarrow>
          if c = 45 \<and> takeWhile isdigit r \<noteq> [] \<and>
             starts_with (ascii ''.html'') (dropWhile isdigit r)
          then Some (takeWhile isdigit r) else None)"

definition match_query_id :: "str \<Rightarrow> str option" where
  "match_query_id s =
     (case s of
        [] \<Rightarrow> None
      | c # r \<Rightarrow>
          if (c = 63 \<or> c = 38) \<and> starts_with (ascii ''id='') r \<and>
             takeWhile isdigit (drop 3 r) \<noteq> []
          then Some (takeWhile isdigit (drop 3 r)) else None)"

definition listing_id_from_link :: "str option \<Rightarrow> str option" where
  "listing_id_from_link link =
     (case link of
        None \<Rightarrow> None
      | Some l \<Rightarrow>
          if l = [] then None
          else (case re_search match_html_id l of
                  Some g \<Rightarrow> Some g
                | None \<Rightarrow>
                    (case re_search match_query_id l of
                       Some g \<Rightarrow> Some g
                     | None \<Rightarrow> Some (take 80 (last (split_on 47 (rstrip_char 47 l)))))))"

text \<open>
  \<^verbatim>\<open>
  def extract_sector(location_info: Optional[str]) -> Optional[str]:
      if not location_info:
          return None
      m = re.search(r"sector(?:ul)?\s*(\d)", location_info.lower())
      return m.group(1) if m else None
  \<close>
  Anchored at a position the pattern has one way to match: after \<open>sector\<close>, \<open>ul\<close> is taken
  when it is there (without it the next character is \<open>u\<close>, neither whitespace nor digit),
  and \<open>\s*\<close> takes the whole run of whitespace (a whitespace character is no digit).
\<close>

definition match_sector :: "str \<Rightarrow> str option" where
  "match_sector s =
     (if starts_with (ascii ''sector'') s then
        (let r = drop 6 s;
             r' = (if starts_with (ascii ''ul'') r then drop 2 r else r)
         in (case dropWhile isspace r' of
               [] \<Rightarrow> None
             | d # _ \<Rightarrow> if isdigit d then Some [d] else None))
      else None)"

definition extract_sector :: "str option \<Rightarrow> str option" where
  "extract_sector location_info =
     (case location_info of
        None \<Rightarrow> None
      | Some l \<Rightarrow> if l = [] then None else re_search match_sector (lower l))"

text \<open>
  \<^verbatim>\<open>
  def parse_rooms_area_from_text(card_text: str) -> Tuple[Optional[int], Optional[float]]:
      rooms = None
      area = None
      m_rooms = re.search(r"(\d+)\s*(camere|camera)", card_text.lower())
      if m_rooms:
          rooms = int(m_rooms.group(1))
      m_area = re.search(r"(\d+([.,]\d+)?)\s*m^2", card_text.lower())
      if m_area:
          area = float(m_area.group(1).replace(",", "."))
      return rooms, area
  \<close>
  (the area pattern ends in \<open>m\<close> and the superscript two, U+00B2). Both patterns have one
  way to match at a position: giving back a digit or a whitespace character leaves a
  character that the next part of the pattern does not accept. The area is a float in the
  code; the model keeps the decimal literal that \<open>float\<close> is applied to.
\<close>

definition match_rooms :: "str \<Rightarrow> str option" where
  "match_rooms s =
     (let ds = takeWhile isdigit s;
          r = dropWhile isspace (dropWhile isdigit s)
      in if ds \<noteq> [] \<and> (starts_with (ascii ''camere'') r \<or> starts_with (ascii ''camera'') r)
         then Some ds else None)"

definition match_area :: "str \<Rightarrow> str option" where
  "match_area s =
     (let ds = takeWhile isdigit s;
          r1 = dropWhile isdigit s;
          frac = (case r1 of
                    [] \<Rightarrow> []
                  | p # r2 \<Rightarrow>
                      if (p = 46 \<or> p = 44) \<and> takeWhile isdigit r2 \<noteq> []
                      then p # takeWhile isdigit r2 else []);
          r3 = dropWhile isspace (drop (length frac) r1)
      in if ds \<noteq> [] \<and> starts_with [109, 0xB2] r3 then Some (ds @ frac) else None)"

definition parse_rooms_area_from_text :: "str \<Rightarrow> nat option \<times> str option" where
  "parse_rooms_area_from_text card_text =
     (let rooms = (case re_search match_rooms (lower card_text) of
                     None \<Rightarrow> None
                   | Some g \<Rightarrow> Some (int_of_digits g));
          area = (case re_search match_area (lower card_text) of
                    None \<Rightarrow> None
                  | Some g \<Rightarrow> Some (map (\<lambda>c. if c = 44 then 46 else c) g))
      in (rooms, area))"

section \<open>Rendered markup\<close>

text \<open>
  The browser is an external collaborator. An element handle answers \<open>inner_text()\<close> and
  \<open>get_attribute(name)\<close>; a listing card answers \<open>query_selector_all(selector)\<close> with the
  matching elements in document order, \<open>query_selector(selector)\<close> with the first of
  them, and \<open>inner_text()\<close>. A card is read as a snapshot of the rendered markup: these
  reads return a value.
\<close>

record element =
  inner_text :: str
  get_attribute :: "str \<Rightarrow> str option"

record card =
  query_selector_all :: "str \<Rightarrow> element list"
  card_inner_text :: str

definition query_selector :: "card \<Rightarrow> str \<Rightarrow> element option" where
  "query_selector c sel = (case query_selector_all c sel of [] \<Rightarrow> None | e # _ \<Rightarrow> Some e)"

definition BASE_URL :: str where
  "BASE_URL = ascii ''https://www.storia.ro''"

definition TITLE_SELECTORS :: "str list" where
  "TITLE_SELECTORS =
     [ascii ''[data-cy*='title']'', ascii ''[data-testid*='title']'', ascii ''h2'', ascii ''h3'',
      ascii ''a[title]'', ascii ''a[aria-label]'']"

definition LOCATION_SELECTORS :: "str list" where
  "LOCATION_SELECTORS =
     [ascii ''[data-cy*='location']'', ascii ''[data-testid*='location']'',
      ascii ''[data-cy*='address']'', ascii ''[data-testid*='address']'',
      ascii ''p:has-text('Sector')'']"

text \<open>The last two price selectors contain the euro sign, U+20AC.\<close>

definition PRICE_SELECTORS :: "str list" where
  "PRICE_SELECTORS =
     [ascii ''[data-cy*='price']'', ascii ''[data-testid*='price']'',
      ascii ''p:has-text('' @ [39, 0x20AC, 39] @ ascii '')'',
      ascii ''span:has-text('' @ [39, 0x20AC, 39] @ ascii '')'']"

subsection \<open>Card extraction\<close>

text \<open>
  \<^verbatim>\<open>
  def pick_first_attr(el, attr_names: List[str]) -> Optional[str]:
      if not el:
          return None
      for a in attr_names:
          v = clean_text(el.get_attribute(a))
          if v:
              return v
      return None
  \<close>
\<close>

fun pick_first_attr_loop :: "element \<Rightarrow> str list \<Rightarrow> str option" where
  "pick_first_attr_loop el [] = None"
| "pick_first_attr_loop el (a # as) =
     (let v = clean_text (get_attribute el a)
      in if truthy v then v else pick_first_attr_loop el as)"

definition pick_first_attr :: "element option \<Rightarrow> str list \<Rightarrow> str option" where
  "pick_first_attr el attr_names =
     (case el of None \<Rightarrow> None | Some e \<Rightarrow> pick_first_attr_loop e attr_names)"

text \<open>
  \<^verbatim>\<open>
  def looks_like_listing_link(href: Optional[str]) -> bool:
      if not href:
          return False
      return ("/oferta/" in href) or ("/oferta" in href)

  def normalize_link(href: Optional[str]) -> Optional[str]:
      if not href:
          return None
      href = href.strip()
      if href.startswith("/"):
          return BASE_URL + href
      if href.startswith("http"):
          return href
      return None
  \<close>
\<close>

definition looks_like_listing_link :: "str option \<Rightarrow> bool" where
  "looks_like_listing_link href =
     (case href of
        None \<Rightarrow> False
      | Some h \<Rightarrow>
          if h = [] then False
          else contains (ascii ''/oferta/'') h \<or> contains (ascii ''/oferta'') h)"

definition normalize_link :: "str option \<Rightarrow> str option" where
  "normalize_link href =
     (case href of
        None \<Rightarrow> None
      | Some h0 \<Rightarrow>
          if h0 = [] then None
          else (let h = strip h0
                in if starts_with (ascii ''/'') h then Some (BASE_URL @ h)
                   else if starts_with (ascii ''http'') h then Some h
                   else None))"

text \<open>
  The loop shared by \<open>extract_title\<close>, \<open>extract_location\<close> and \<open>extract_price\<close>, with the
  minimum length \<open>n\<close> of each:
  \<^verbatim>\<open>
      for sel in SELECTORS:
          el = card.query_selector(sel)
          if el:
              t = clean_text(el.inner_text())
              if t and len(t) >= n:
                  return t
  \<close>
  It yields \<open>None\<close> when the loop ends without returning.
\<close>

fun selector_loop :: "card \<Rightarrow> nat \<Rightarrow> str list \<Rightarrow> str option" where
  "selector_loop c n [] = None"
| "selector_loop c n (sel # sels) =
     (case query_selector c sel of
        None \<Rightarrow> selector_loop c n sels
      | Some el \<Rightarrow>
          (let t = clean_text (Some (inner_text el))
           in if truthy t \<and> n \<le> length (the t) then t else selector_loop c n sels))"

text \<open>
  \<^verbatim>\<open>
  def extract_title(card) -> Optional[str]:
      for sel in TITLE_SELECTORS:
          ... (the loop, with len(t) >= 3)
      a = card.query_selector("a[href]")
      if a:
          t = pick_first_attr(a, ["title", "aria-label"])
          if t and len(t) >= 3:
              return t
      return None
  \<close>
\<close>

definition extract_title :: "card \<Rightarrow> str option" where
  "extract_title c =
     (case selector_loop c 3 TITLE_SELECTORS of
        Some t \<Rightarrow> Some t
      | None \<Rightarrow>
          (case query_selector c (ascii ''a[href]'') of
             None \<Rightarrow> None
           | Some a \<Rightarrow>
               (let t = pick_first_attr (Some a) [ascii ''title'', ascii ''aria-label'']
                in if truthy t \<and> 3 \<le> length (the t) then t else None)))"

definition extract_location :: "card \<Rightarrow> str option" where
  "extract_location c = selector_loop c 2 LOCATION_SELECTORS"

text \<open>\<open>extract_price\<close> cleans with \<open>parse_price_raw\<close>, which is \<open>clean_text\<close>.\<close>

definition extract_price :: "card \<Rightarrow> str option" where
  "extract_price c = selector_loop c 1 PRICE_SELECTORS"

text \<open>
  \<^verbatim>\<open>
  def extract_listing_link(card) -> Optional[str]:
      anchors = card.query_selector_all("a[href]")
      for a in anchors:
          href = a.get_attribute("href")
          if looks_like_listing_link(href):
              return normalize_link(href)
      a = card.query_selector("a[href]")
      return normalize_link(a.get_attribute("href")) if a else None
  \<close>
\<close>

fun listing_anchor_loop :: "element list \<Rightarrow> str option option" where
  "listing_anchor_loop [] = None"
| "listing_anchor_loop (a # as) =
     (let href = get_attribute a (ascii ''href'')
      in if looks_like_listing_link href then Some (normalize_link href)
         else listing_anchor_loop as)"

definition extract_listing_link :: "card \<Rightarrow> str option" where
  "extract_listing_link c =
     (case listing_anchor_loop (query_selector_all c (ascii ''a[href]'')) of
        Some r \<Rightarrow> r
      | None \<Rightarrow>
          (case query_selector c (ascii ''a[href]'') of
             None \<Rightarrow> None
           | Some a \<Rightarrow> normalize_link (get_attribute a (ascii ''href''))))"

subsection \<open>The Selector Fallback Engine of the specification\<close>

text \<open>
  The specification describes the three extractors as one resolver: it iterates a chain of
  locators in order; for each locator it queries the root for the first matching element;
  if found, it extracts the element's text (or a prioritized list of attributes, for
  link-like fields) through the normalizer; it accepts the result only if its length is at
  least the minimum; the first accepted result wins, and absent is returned when no
  locator is accepted. These definitions follow those words; the claims compare them with
  the extractors translated from the code above.
\<close>

datatype locator = Text str | Attrs str "str list"

fun candidate :: "card \<Rightarrow> locator \<Rightarrow> str option" where
  "candidate rt (Text sel) =
     (case query_selector rt sel of
        None \<Rightarrow> None
      | Some el \<Rightarrow> clean_text (Some (inner_text el)))"
| "candidate rt (Attrs sel names) =
     (case query_selector rt sel of
        None \<Rightarrow> None
      | Some el \<Rightarrow> pick_first_attr (Some el) names)"

definition accepted :: "card \<Rightarrow> locator \<Rightarrow> nat \<Rightarrow> str option" where
  "accepted rt loc minLength =
     (case candidate rt loc of
        None \<Rightarrow> None
      | Some t \<Rightarrow> if minLength \<le> length t then Some t else None)"

fun resolve :: "card \<Rightarrow> locator list \<Rightarrow> nat \<Rightarrow> str option" where
  "resolve rt [] minLength = None"
| "resolve rt (loc # chain) minLength =
     (case accepted rt loc minLength of
        Some t \<Rightarrow> Some t
      | None \<Rightarrow> resolve rt chain minLength)"

definition title_chain :: "locator list" where
  "title_chain =
     map Text TITLE_SELECTORS @ [Attrs (ascii ''a[href]'') [ascii ''title'', ascii ''aria-label'']]"

definition location_chain :: "locator list" where
  "location_chain = map Text LOCATION_SELECTORS"

definition price_chain :: "locator list" where
  "price_chain = map Text PRICE_SELECTORS"

section \<open>Browser tabs and failures\<close>

text \<open>
  The exceptions the scraper handles: Playwright's timeout, and any other subclass of
  \<open>Exception\<close>. A function of the code that can raise returns a sum, \<open>Inl\<close> the exception.

  A browser tab (a Playwright \<open>Page\<close>) is navigated with \<open>goto\<close>. What a navigation
  produces is decided by the site and the network, not by the program: \<open>responses tab k
  url\<close> is the outcome of the tab's navigation number \<open>k\<close> (counted from 0) when it goes to
  \<open>url\<close>, either an exception or the view then rendered, so the same address may answer
  differently each time. \<open>visited\<close> is the tab's history, the addresses it was sent to.
\<close>

datatype exn = PlaywrightTimeoutError | OtherException

record 'v tab =
  responses :: "nat \<Rightarrow> str \<Rightarrow> exn + 'v"
  visited :: "str list"

definition goto :: "'v tab \<Rightarrow> str \<Rightarrow> (exn + 'v) \<times> 'v tab" where
  "goto t url = (responses t (length (visited t)) url, t\<lparr>visited := visited t @ [url]\<rparr>)"

text \<open>
  A rendered detail page. Unlike a card, it is read while the page may still change or
  close, so every read may raise.
\<close>

record detail_view =
  dv_query_selector :: "str \<Rightarrow> exn + element option"
  dv_inner_text :: "str \<Rightarrow> exn + str"

section \<open>Detail Enricher\<close>

definition DETAIL_LOCATION_SELECTORS :: "str list" where
  "DETAIL_LOCATION_SELECTORS =
     [ascii ''[data-cy*='address']'', ascii ''[data-testid*='address']'',
      ascii ''[data-cy*='location']'', ascii ''[data-testid*='location']'',
      ascii ''header *:has-text('Sector')'']"

definition DETAIL_ROOMS_SELECTORS :: "str list" where
  "DETAIL_ROOMS_SELECTORS =
     [ascii ''[data-cy*='rooms']'', ascii ''[data-testid*='rooms']'',
      ascii ''li:has-text('camere')'', ascii ''span:has-text('camere')'']"

text \<open>
  Matching under \<open>re.IGNORECASE\<close>: \<open>ci_char p c\<close> says that the text character \<open>c\<close> matches
  the pattern letter \<open>p\<close> (given in lower case). It is exact for the letters of the two
  patterns below: a letter matches itself and its capital, \<open>s\<close> also the long s (U+017F),
  \<open>i\<close> also the dotted capital and the dotless small i (U+0130, U+0131), and the s with
  comma below (U+0219) its capital (U+0218).
\<close>

definition ci_char :: "uchar \<Rightarrow> uchar \<Rightarrow> bool" where
  "ci_char p c \<longleftrightarrow>
     c = p \<or> (97 \<le> p \<and> p \<le> 122 \<and> c + 32 = p) \<or> (p = 115 \<and> c = 0x17F) \<or>
     (p = 105 \<and> (c = 0x130 \<or> c = 0x131)) \<or> (p = 0x219 \<and> c = 0x218)"

definition starts_with_ci :: "str \<Rightarrow> str \<Rightarrow> bool" where
  "starts_with_ci p s \<longleftrightarrow> length p \<le> length s \<and> list_all2 ci_char p (take (length p) s)"

text \<open>
  \<^verbatim>\<open>
  def safe_int_from_match(text: str, pattern: str) -> Optional[int]:
      m = re.search(pattern, text, flags=re.IGNORECASE)
      if not m:
          return None
      try:
          return int(m.group(1))
      except Exception:
          return None
  \<close>
  The only pattern it is called with is \<open>(\d+)\s*(camere|camera)\<close>, anchored here as
  \<open>match_rooms_ci\<close>; \<open>int\<close> of a run of digits does not raise.
\<close>

definition match_rooms_ci :: "str \<Rightarrow> str option" where
  "match_rooms_ci s =
     (let ds = takeWhile isdigit s;
          r = dropWhile isspace (dropWhile isdigit s)
      in if ds \<noteq> [] \<and>
            (starts_with_ci (ascii ''camere'') r \<or> starts_with_ci (ascii ''camera'') r)
         then Some ds else None)"

definition safe_int_from_match :: "str \<Rightarrow> (str \<Rightarrow> str option) \<Rightarrow> nat option" where
  "safe_int_from_match text pattern =
     (case re_search pattern text of None \<Rightarrow> None | Some g \<Rightarrow> Some (int_of_digits g))"

text \<open>
  The pattern of the location fallback, searched with \<open>re.IGNORECASE\<close>, is the name of the
  city (\<open>Bucure\<close>, U+0219, \<open>ti\<close>), then \<open>[^.\n]{0,120}\<close>, then \<open>sector(?:ul)?\s*\d\<close>, all in
  one group. \<open>sector_tail\<close> is the length matched by the last part at a position (it has
  one way to match, as in \<open>match_sector\<close>); the bounded gap is greedy, so the longest gap
  is tried first and shortened until the tail matches.
\<close>

definition sector_tail :: "str \<Rightarrow> nat option" where
  "sector_tail s =
     (if starts_with_ci (ascii ''sector'') s then
        (let r = drop 6 s;
             u = (if starts_with_ci (ascii ''ul'') r then 2 else 0);
             w = length (takeWhile isspace (drop u r))
         in (case drop (u + w) r of
               [] \<Rightarrow> None
             | d # _ \<Rightarrow> if isdigit d then Some (6 + u + w + 1) else None))
      else None)"

fun gap_then_tail :: "nat \<Rightarrow> str \<Rightarrow> nat option" where
  "gap_then_tail 0 r = sector_tail r"
| "gap_then_tail (Suc k) r =
     (case sector_tail (drop (Suc k) r) of
        Some n \<Rightarrow> Some (Suc k + n)
      | None \<Rightarrow> gap_then_tail k r)"

definition match_city_sector :: "str \<Rightarrow> str option" where
  "match_city_sector s =
     (if starts_with_ci (ascii ''bucure'' @ [0x219] @ ascii ''ti'') s then
        (let r = drop 9 s;
             kmax = min 120 (length (takeWhile (\<lambda>c. c \<noteq> 46 \<and> c \<noteq> 10) r))
         in (case gap_then_tail kmax r of
               None \<Rightarrow> None
             | Some n \<Rightarrow> Some (take (9 + n) s)))
      else None)"

text \<open>
  \<^verbatim>\<open>
  def extract_location_from_detail(detail_page) -> Optional[str]:
      for sel in DETAIL_LOCATION_SELECTORS:
          el = detail_page.query_selector(sel)
          if el:
              t = clean_text(el.inner_text())
              if t and len(t) >= 2:
                  return t
      body_text = clean_text(detail_page.inner_text("body")) or ""
      m = re.search(<city, gap, sector>, body_text, flags=re.IGNORECASE)
      if m:
          return clean_text(m.group(1))
      return None
  \<close>
\<close>

fun detail_location_loop :: "detail_view \<Rightarrow> str list \<Rightarrow> exn + str option" where
  "detail_location_loop v [] = Inr None"
| "detail_location_loop v (sel # sels) =
     (case dv_query_selector v sel of
        Inl e \<Rightarrow> Inl e
      | Inr None \<Rightarrow> detail_location_loop v sels
      | Inr (Some el) \<Rightarrow>
          (let t = clean_text (Some (inner_text el))
           in if truthy t \<and> 2 \<le> length (the t) then Inr t
              else detail_location_loop v sels))"

definition extract_location_from_detail :: "detail_view \<Rightarrow> exn + str option" where
  "extract_location_from_detail v =
     (case detail_location_loop v DETAIL_LOCATION_SELECTORS of
        Inl e \<Rightarrow> Inl e
      | Inr (Some t) \<Rightarrow> Inr (Some t)
      | Inr None \<Rightarrow>
          (case dv_inner_text v (ascii ''body'') of
             Inl e \<Rightarrow> Inl e
           | Inr b \<Rightarrow>
               (let body_text = (case clean_text (Some b) of None \<Rightarrow> [] | Some t \<Rightarrow> t)
                in (case re_search match_city_sector body_text of
                      Some g \<Rightarrow> Inr (clean_text (Some g))
                    | None \<Rightarrow> Inr None))))"

text \<open>
  \<^verbatim>\<open>
  def extract_rooms_from_detail(detail_page) -> Optional[int]:
      for sel in DETAIL_ROOMS_SELECTORS:
          el = detail_page.query_selector(sel)
          if el:
              t = clean_text(el.inner_text()) or ""
              r = safe_int_from_match(t, r"(\d+)\s*(camere|camera)")
              if r is not None:
                  return r
      body_text = clean_text(detail_page.inner_text("body")) or ""
      r = safe_int_from_match(body_text, r"(\d+)\s*(camere|camera)")
      return r
  \<close>
\<close>

fun detail_rooms_loop :: "detail_view \<Rightarrow> str list \<Rightarrow> exn + nat option" where
  "detail_rooms_loop v [] = Inr None"
| "detail_rooms_loop v (sel # sels) =
     (case dv_query_selector v sel of
        Inl e \<Rightarrow> Inl e
      | Inr None \<Rightarrow> detail_rooms_loop v sels
      | Inr (Some el) \<Rightarrow>
          (let t = (case clean_text (Some (inner_text el)) of None \<Rightarrow> [] | Some t \<Rightarrow> t);
               r = safe_int_from_match t match_rooms_ci
           in if r \<noteq> None then Inr r else detail_rooms_loop v sels))"

definition extract_rooms_from_detail :: "detail_view \<Rightarrow> exn + nat option" where
  "extract_rooms_from_detail v =
     (case detail_rooms_loop v DETAIL_ROOMS_SELECTORS of
        Inl e \<Rightarrow> Inl e
      | Inr (Some r) \<Rightarrow> Inr (Some r)
      | Inr None \<Rightarrow>
          (case dv_inner_text v (ascii ''body'') of
             Inl e \<Rightarrow> Inl e
           | Inr b \<Rightarrow>
               (let body_text = (case clean_text (Some b) of None \<Rightarrow> [] | Some t \<Rightarrow> t)
                in Inr (safe_int_from_match body_text match_rooms_ci))))"

text \<open>
  The result of an enrichment is a dict with the keys \<open>Location_Info\<close>, \<open>Sector\<close> and
  \<open>Room_Number\<close>, each of which may be missing, or present with the value \<open>None\<close>. A
  field of the record is \<open>None\<close> for a missing key and \<open>Some v\<close> for a key with value \<open>v\<close>;
  \<open>dict_get\<close> is \<open>dict.get\<close>, which gives \<open>None\<close> in both of the first two cases.
\<close>

record enrichment =
  d_Location_Info :: "str option option"
  d_Sector :: "str option option"
  d_Room_Number :: "nat option option"

definition empty_dict :: enrichment where
  "empty_dict = \<lparr>d_Location_Info = None, d_Sector = None, d_Room_Number = None\<rparr>"

definition dict_get :: "(enrichment \<Rightarrow> 'a option option) \<Rightarrow> enrichment \<Rightarrow> 'a option" where
  "dict_get key d = (case key d of None \<Rightarrow> None | Some v \<Rightarrow> v)"

text \<open>
  \<^verbatim>\<open>
  def enrich_from_detail(detail_page, link, need_location, need_rooms):
      out = {}
      try:
          detail_page.goto(link, wait_until="domcontentloaded", timeout=DETAIL_TIMEOUT_MS)
          detail_page.wait_for_timeout(900)
          accept_cookies(detail_page)
          if need_location:
              loc = extract_location_from_detail(detail_page)
              out["Location_Info"] = loc
              out["Sector"] = extract_sector(loc)
          if need_rooms:
              rooms = extract_rooms_from_detail(detail_page)
              out["Room_Number"] = rooms
          time.sleep(random.uniform(DETAIL_SLEEP_MIN, DETAIL_SLEEP_MAX))
          return out
      except Exception:
          return out
  \<close>
  The two \<open>if\<close> blocks are the steps below: each either raises, leaving \<open>out\<close> as it was,
  or returns the updated \<open>out\<close>. \<open>accept_cookies\<close> catches every exception of its own body
  and returns nothing; the pauses return nothing. \<open>try_block\<close> is the body of the \<open>try\<close>:
  the value of \<open>out\<close> when the block is left, and the exception that left it, if any.
  The function returns \<open>out\<close> on both paths.
\<close>

definition location_step :: "detail_view \<Rightarrow> bool \<Rightarrow> enrichment \<Rightarrow> exn + enrichment" where
  "location_step v need_location out =
     (if need_location then
        (case extract_location_from_detail v of
           Inl e \<Rightarrow> Inl e
         | Inr loc \<Rightarrow> Inr (out\<lparr>d_Location_Info := Some loc, d_Sector := Some (extract_sector loc)\<rparr>))
      else Inr out)"

definition rooms_step :: "detail_view \<Rightarrow> bool \<Rightarrow> enrichment \<Rightarrow> exn + enrichment" where
  "rooms_step v need_rooms out =
     (if need_rooms then
        (case extract_rooms_from_detail v of
           Inl e \<Rightarrow> Inl e
         | Inr rooms \<Rightarrow> Inr (out\<lparr>d_Room_Number := Some rooms\<rparr>))
      else Inr out)"

definition try_block :: "exn + detail_view \<Rightarrow> bool \<Rightarrow> bool \<Rightarrow> enrichment \<times> exn option" where
  "try_block nav need_location need_rooms =
     (let out = empty_dict
      in (case nav of
            Inl e \<Rightarrow> (out, Some e)
          | Inr v \<Rightarrow>
              (case location_step v need_location out of
                 Inl e \<Rightarrow> (out, Some e)
               | Inr out1 \<Rightarrow>
                   (case rooms_step v need_rooms out1 of
                      Inl e \<Rightarrow> (out1, Some e)
                    | Inr out2 \<Rightarrow> (out2, None)))))"

definition enrich_from_detail ::
  "detail_view tab \<Rightarrow> str \<Rightarrow> bool \<Rightarrow> bool \<Rightarrow> (exn + enrichment) \<times> detail_view tab" where
  "enrich_from_detail detail_page link need_location need_rooms =
     (let (nav, detail_page') = goto detail_page link
      in (case try_block nav need_location need_rooms of
            (out, None) \<Rightarrow> (Inr out, detail_page')
          | (out, Some e) \<Rightarrow> (Inr out, detail_page')))"

section \<open>Page Orchestrator\<close>

text \<open>
  A rendered results page: \<open>wait_for_selector\<close> returns or raises, \<open>query_selector_all\<close>
  gives the cards a selector matches, \<open>content()\<close> gives the markup or raises.
\<close>

record results_view =
  rv_wait_for_selector :: "exn option"
  rv_query_selector_all :: "str \<Rightarrow> card list"
  rv_content :: "exn + str"

text \<open>
  The objects that \<open>run\<close> creates once and hands to every call of \<open>scrape_page\<close>, which
  changes them in place: the results tab, the detail tab and the enrichment cache, a dict
  from listing id to enrichment result.
\<close>

record session =
  page :: "results_view tab"
  detail_page :: "detail_view tab"
  detail_cache :: "str \<rightharpoonup> enrichment"

text \<open>
  One row of the output table. The column \<open>Scraped_At\<close>, the wall-clock time of the
  extraction, is left out. \<open>Area_m2\<close> holds the decimal literal of the float.
\<close>

record row =
  listing_id :: "str option"
  Property_Title :: "str option"
  Price_Raw :: "str option"
  Location_Info :: "str option"
  Sector :: "str option"
  Room_Number :: "nat option"
  Area_m2 :: "str option"
  Link :: "str option"
  Page :: nat

definition ENABLE_DETAIL_ENRICH :: bool where
  "ENABLE_DETAIL_ENRICH = True"

text \<open>\<open>str(n)\<close> and \<open>START_URL_TEMPLATE.format(page=page_num)\<close>.\<close>

function str_of_nat :: "nat \<Rightarrow> str" where
  "str_of_nat n = (if n < 10 then [48 + n] else str_of_nat (n div 10) @ [48 + n mod 10])"
  by pat_completeness auto
termination
  by (relation "measure id") auto

declare str_of_nat.simps [simp del]

definition START_URL :: "nat \<Rightarrow> str" where
  "START_URL page_num =
     ascii ''https://www.storia.ro/ro/rezultate/vanzare/apartament/bucuresti?limit=72&page=''
       @ str_of_nat page_num"

text \<open>
  \<^verbatim>\<open>
  def get_listing_cards(page):
      cards = page.query_selector_all("article:has(a[href*='/oferta'])")
      if not cards:
          cards = page.query_selector_all(
              "[data-cy*='listing']:has(a[href]), [data-testid*='listing']:has(a[href])")
      if not cards:
          cards = page.query_selector_all("article")
      return cards
  \<close>
\<close>

definition get_listing_cards :: "results_view \<Rightarrow> card list" where
  "get_listing_cards v =
     (let cards = rv_query_selector_all v (ascii ''article:has(a[href*='/oferta'])'');
          cards = (if cards = [] then
                     rv_query_selector_all v
                       (ascii ''[data-cy*='listing']:has(a[href]), [data-testid*='listing']:has(a[href])'')
                   else cards);
          cards = (if cards = [] then rv_query_selector_all v (ascii ''article'') else cards)
      in cards)"

text \<open>
  The cache lookup of the loop body:
  \<^verbatim>\<open>
                if lid in detail_cache:
                    cached = detail_cache[lid]
                else:
                    cached = enrich_from_detail(
                        detail_page=detail_page, link=link,
                        need_location=need_location, need_rooms=need_rooms)
                    detail_cache[lid] = cached
  \<close>
\<close>

definition cached_enrichment ::
  "session \<Rightarrow> str \<Rightarrow> str \<Rightarrow> bool \<Rightarrow> bool \<Rightarrow> (exn + enrichment) \<times> session" where
  "cached_enrichment s lid link need_location need_rooms =
     (case detail_cache s lid of
        Some cached \<Rightarrow> (Inr cached, s)
      | None \<Rightarrow>
          (let (r, dp) = enrich_from_detail (detail_page s) link need_location need_rooms
           in (case r of
                 Inl e \<Rightarrow> (Inl e, s\<lparr>detail_page := dp\<rparr>)
               | Inr cached \<Rightarrow>
                   (Inr cached,
                    s\<lparr>detail_page := dp, detail_cache := (detail_cache s)(lid \<mapsto> cached)\<rparr>))))"

text \<open>
  The backfill of the loop body (\<open>a or b\<close> is \<open>a\<close> when \<open>a\<close> is a non-empty string):
  \<^verbatim>\<open>
                if need_location:
                    location_info = location_info or cached.get("Location_Info")
                    sector = sector or cached.get("Sector")
                if need_rooms:
                    rooms = rooms if rooms is not None else cached.get("Room_Number")
  \<close>
\<close>

definition py_or :: "str option \<Rightarrow> str option \<Rightarrow> str option" where
  "py_or a b = (if truthy a then a else b)"

definition backfill ::
  "enrichment \<Rightarrow> bool \<Rightarrow> bool \<Rightarrow> str option \<times> str option \<times> nat option \<Rightarrow>
   str option \<times> str option \<times> nat option" where
  "backfill cached need_location need_rooms triple =
     (case triple of
        (location_info, sector, rooms) \<Rightarrow>
          (if need_location then py_or location_info (dict_get d_Location_Info cached)
           else location_info,
           if need_location then py_or sector (dict_get d_Sector cached) else sector,
           if need_rooms then (if rooms \<noteq> None then rooms else dict_get d_Room_Number cached)
           else rooms))"

text \<open>
  The end of the loop body: the row, and the test that decides whether it is appended.
  \<^verbatim>\<open>
        if row["Link"] and (row["Property_Title"] or row["Price_Raw"] or row["Location_Info"]):
            rows.append(row)
  \<close>
\<close>

definition retained :: "row \<Rightarrow> bool" where
  "retained r \<longleftrightarrow>
     truthy (Link r) \<and>
     (truthy (Property_Title r) \<or> truthy (Price_Raw r) \<or> truthy (Location_Info r))"

definition make_row ::
  "str option \<Rightarrow> str option \<Rightarrow> str option \<Rightarrow> str option \<times> str option \<times> nat option \<Rightarrow>
   str option \<Rightarrow> str option \<Rightarrow> nat \<Rightarrow> row" where
  "make_row lid title price_raw triple area link page_num =
     (case triple of
        (location_info, sector, rooms) \<Rightarrow>
          \<lparr>listing_id = lid, Property_Title = title, Price_Raw = price_raw,
           Location_Info = location_info, Sector = sector, Room_Number = rooms,
           Area_m2 = area, Link = link, Page = page_num\<rparr>)"

text \<open>
  The body of the loop over the cards in \<open>scrape_page\<close>, for one card: the row to append,
  if any, and the session as the body leaves it.
  \<^verbatim>\<open>
    for c in cards:
        link = extract_listing_link(c)
        if not link or ("/oferta" not in link):
            continue
        title = extract_title(c)
        price_raw = extract_price(c)
        location_info = extract_location(c)
        card_text = clean_text(c.inner_text()) or ""
        rooms, area = parse_rooms_area_from_text(card_text)
        sector = extract_sector(location_info)
        lid = listing_id_from_link(link)
        if ENABLE_DETAIL_ENRICH:
            need_location = (location_info is None) or (sector is None)
            need_rooms = (rooms is None)
            if (need_location or need_rooms) and lid:
                ... (lookup and backfill, above)
        row = {...}
        ... (retention test, above)
  \<close>
\<close>

definition scrape_card :: "card \<Rightarrow> nat \<Rightarrow> session \<Rightarrow> (exn + row option) \<times> session" where
  "scrape_card c page_num s =
     (let link = extract_listing_link c
      in if \<not> truthy link \<or> \<not> contains (ascii ''/oferta'') (the link) then (Inr None, s)
         else
           (let title = extract_title c;
                price_raw = extract_price c;
                location_info = extract_location c;
                card_text = (case clean_text (Some (card_inner_text c)) of
                               None \<Rightarrow> [] | Some t \<Rightarrow> t);
                (rooms, area) = parse_rooms_area_from_text card_text;
                sector = extract_sector location_info;
                lid = listing_id_from_link link;
                need_location = (location_info = None \<or> sector = None);
                need_rooms = (rooms = None)
            in if ENABLE_DETAIL_ENRICH \<and> (need_location \<or> need_rooms) \<and> truthy lid then
                 (case cached_enrichment s (the lid) (the link) need_location need_rooms of
                    (Inl e, s') \<Rightarrow> (Inl e, s')
                  | (Inr cached, s') \<Rightarrow>
                      (let r = make_row lid title price_raw
                                 (backfill cached need_location need_rooms
                                    (location_info, sector, rooms))
                                 area link page_num
                       in (Inr (if retained r then Some r else None), s')))
               else
                 (let r = make_row lid title price_raw (location_info, sector, rooms)
                            area link page_num
                  in (Inr (if retained r then Some r else None), s))))"

fun scrape_cards ::
  "card list \<Rightarrow> nat \<Rightarrow> row list \<Rightarrow> session \<Rightarrow> (exn + row list) \<times> session" where
  "scrape_cards [] page_num rows s = (Inr rows, s)"
| "scrape_cards (c # cs) page_num rows s =
     (case scrape_card c page_num s of
        (Inl e, s') \<Rightarrow> (Inl e, s')
      | (Inr None, s') \<Rightarrow> scrape_cards cs page_num rows s'
      | (Inr (Some r), s') \<Rightarrow> scrape_cards cs page_num (rows @ [r]) s')"

text \<open>
  \<^verbatim>\<open>
  def scrape_page(page, detail_page, page_num: int, detail_cache: Dict[str, Dict]) -> List[Dict]:
      url = START_URL_TEMPLATE.format(page=page_num)
      page.goto(url, wait_until="domcontentloaded", timeout=GOTO_TIMEOUT_MS)
      page.wait_for_timeout(1500)
      accept_cookies(page)
      page.mouse.wheel(0, 1400)
      page.wait_for_timeout(900)
      try:
          page.wait_for_selector("a[href]", timeout=12_000)
      except PlaywrightTimeoutError:
          pass
      cards = get_listing_cards(page)
      if not cards:
          os.makedirs(DEBUG_DIR, exist_ok=True)
          html = page.content()
          with open(...) as f:
              f.write(html)
          return []
      rows = []
      for c in cards:
          ... (the loop body, above)
      if len(rows) < 5:
          os.makedirs(DEBUG_DIR, exist_ok=True)
          html = page.content()
          with open(...) as f:
              f.write(html)
      return rows
  \<close>
  The navigation may raise, \<open>wait_for_selector\<close> may raise (only its timeout is caught)
  and \<open>page.content()\<close> may raise; the pauses, the cookie button (whose exceptions
  \<open>accept_cookies\<close> catches) and the scroll return nothing, and the files written for
  diagnosis are not part of the model. An exception leaves the function with the session
  as it is at that point.
\<close>

definition scrape_page :: "session \<Rightarrow> nat \<Rightarrow> (exn + row list) \<times> session" where
  "scrape_page s page_num =
     (let (nav, pg) = goto (page s) (START_URL page_num);
          s1 = s\<lparr>page := pg\<rparr>
      in (case nav of
            Inl e \<Rightarrow> (Inl e, s1)
          | Inr v \<Rightarrow>
              (case rv_wait_for_selector v of
                 Some OtherException \<Rightarrow> (Inl OtherException, s1)
               | _ \<Rightarrow>
                   (let cards = get_listing_cards v
                    in if cards = [] then
                         (case rv_content v of
                            Inl e \<Rightarrow> (Inl e, s1)
                          | Inr html \<Rightarrow> (Inr [], s1))
                       else
                         (case scrape_cards cards page_num [] s1 of
                            (Inl e, s2) \<Rightarrow> (Inl e, s2)
                          | (Inr rows, s2) \<Rightarrow>
                              if length rows < 5 then
                                (case rv_content v of
                                   Inl e \<Rightarrow> (Inl e, s2)
                                 | Inr html \<Rightarrow> (Inr rows, s2))
                              else (Inr rows, s2))))))"

section \<open>Run Controller\<close>

definition MAX_PAGES :: nat where
  "MAX_PAGES = 20"

text \<open>
  The retry loop of \<open>run\<close> for one page, over the attempts still to make:
  \<^verbatim>\<open>
            page_rows = []
            for attempt in range(1, 4):
                try:
                    page_rows = scrape_page(page, detail_page, page_num, detail_cache)
                    break
                except PlaywrightTimeoutError:
                    wait = 2.0 * attempt + random.random()
                    print(...)
                    time.sleep(wait)
                except Exception as e:
                    wait = 2.0 * attempt + random.random()
                    print(...)
                    time.sleep(wait)
  \<close>
  Both handlers do the same. \<open>jitter page_num attempt\<close> is the value \<open>random.random()\<close>
  returns there. The loop yields \<open>page_rows\<close>, the session, the attempts that failed and the
  time slept after each of them.
\<close>

fun retry_loop ::
  "(nat \<Rightarrow> nat \<Rightarrow> real) \<Rightarrow> session \<Rightarrow> nat \<Rightarrow> nat list \<Rightarrow>
   row list \<times> session \<times> nat list \<times> real list" where
  "retry_loop jitter s page_num [] = ([], s, [], [])"
| "retry_loop jitter s page_num (attempt # attempts) =
     (case scrape_page s page_num of
        (Inr page_rows, s') \<Rightarrow> (page_rows, s', [], [])
      | (Inl e, s') \<Rightarrow>
          (let wait = 2 * real attempt + jitter page_num attempt;
               (page_rows, s'', failed, sleeps) = retry_loop jitter s' page_num attempts
           in (page_rows, s'', attempt # failed, wait # sleeps)))"

text \<open>
  \<^verbatim>\<open>
            unique_rows = []
            for r in page_rows:
                lid = r.get("listing_id")
                if lid and lid in seen_ids:
                    continue
                if lid:
                    seen_ids.add(lid)
                unique_rows.append(r)
  \<close>
\<close>

fun dedup :: "row list \<Rightarrow> str set \<Rightarrow> row list \<Rightarrow> row list \<times> str set" where
  "dedup [] seen_ids unique_rows = (unique_rows, seen_ids)"
| "dedup (r # rs) seen_ids unique_rows =
     (let lid = listing_id r
      in if truthy lid \<and> the lid \<in> seen_ids then dedup rs seen_ids unique_rows
         else dedup rs (if truthy lid then insert (the lid) seen_ids else seen_ids)
                (unique_rows @ [r]))"

text \<open>
  What happened on one page: the attempts that failed, the sleeps after them, the rows
  the page scrape returned and the number of rows appended.
\<close>

record page_report =
  rp_page :: nat
  rp_failed :: "nat list"
  rp_sleeps :: "real list"
  rp_rows :: "row list"
  rp_added :: nat

record run_state =
  rs_session :: session
  seen_ids :: "str set"
  output_csv :: "row list"
  total_rows :: nat
  reports :: "page_report list"

text \<open>
  \<^verbatim>\<open>
  def append_rows(path: str, rows: List[Dict]):
      if not rows:
          return 0
      with open(path, "a", newline="", encoding="utf-8") as f:
          writer = csv.DictWriter(f, fieldnames=rows[0].keys())
          for r in rows:
              writer.writerow(r)
      return len(rows)
  \<close>
  on the rows of the output table; then the body of the loop over the pages, and \<open>run\<close>.
  \<^verbatim>\<open>
        for page_num in range(1, MAX_PAGES + 1):
            ... (retry loop, dedup)
            added = append_rows(OUTPUT_CSV, unique_rows)
            total_rows += added
            print(...)
            time.sleep(random.uniform(MIN_SLEEP, MAX_SLEEP))
  \<close>
\<close>

definition append_rows :: "row list \<Rightarrow> row list \<Rightarrow> nat \<times> row list" where
  "append_rows table rows = (if rows = [] then (0, table) else (length rows, table @ rows))"

definition run_page :: "(nat \<Rightarrow> nat \<Rightarrow> real) \<Rightarrow> run_state \<Rightarrow> nat \<Rightarrow> run_state" where
  "run_page jitter st page_num =
     (let (page_rows, s, failed, sleeps) = retry_loop jitter (rs_session st) page_num [1, 2, 3];
          (unique_rows, seen) = dedup page_rows (seen_ids st) [];
          (added, table) = append_rows (output_csv st) unique_rows
      in \<lparr>rs_session = s, seen_ids = seen, output_csv = table,
          total_rows = total_rows st + added,
          reports = reports st @
            [\<lparr>rp_page = page_num, rp_failed = failed, rp_sleeps = sleeps,
              rp_rows = page_rows, rp_added = added\<rparr>]\<rparr>)"

definition run_pages :: "(nat \<Rightarrow> nat \<Rightarrow> real) \<Rightarrow> run_state \<Rightarrow> nat list \<Rightarrow> run_state" where
  "run_pages jitter st page_nums = foldl (run_page jitter) st page_nums"

text \<open>
  \<open>run\<close> starts with two fresh tabs, an empty cache, no seen id and nothing written, and
  goes through the pages 1 to \<open>MAX_PAGES\<close>. Its parameters are what the world decides:
  the answers of the site to each tab and the random jitter.
\<close>

definition initial_state ::
  "(nat \<Rightarrow> str \<Rightarrow> exn + results_view) \<Rightarrow> (nat \<Rightarrow> str \<Rightarrow> exn + detail_view) \<Rightarrow> run_state" where
  "initial_state site detail_site =
     \<lparr>rs_session =
        \<lparr>page = \<lparr>responses = site, visited = []\<rparr>,
         detail_page = \<lparr>responses = detail_site, visited = []\<rparr>,
         detail_cache = Map.empty\<rparr>,
      seen_ids = {}, output_csv = [], total_rows = 0, reports = []\<rparr>"

definition run ::
  "(nat \<Rightarrow> nat \<Rightarrow> real) \<Rightarrow> (nat \<Rightarrow> str \<Rightarrow> exn + results_view) \<Rightarrow>
   (nat \<Rightarrow> str \<Rightarrow> exn + detail_view) \<Rightarrow> run_state" where
  "run jitter site detail_site =
     run_pages jitter (initial_state site detail_site) [1..<MAX_PAGES + 1]"

section \<open>Vocabulary of the claims\<close>

text \<open>
  The values the loop body of \<open>scrape_page\<close> computes from a card before enrichment, under
  the names of its local variables.
\<close>

definition card_text :: "card \<Rightarrow> str" where
  "card_text c = (case clean_text (Some (card_inner_text c)) of None \<Rightarrow> [] | Some t \<Rightarrow> t)"

definition card_rooms :: "card \<Rightarrow> nat option" where
  "card_rooms c = fst (parse_rooms_area_from_text (card_text c))"

definition card_area :: "card \<Rightarrow> str option" where
  "card_area c = snd (parse_rooms_area_from_text (card_text c))"

definition card_sector :: "card \<Rightarrow> str option" where
  "card_sector c = extract_sector (extract_location c)"

definition need_location :: "card \<Rightarrow> bool" where
  "need_location c \<longleftrightarrow> extract_location c = None \<or> card_sector c = None"

definition need_rooms :: "card \<Rightarrow> bool" where
  "need_rooms c \<longleftrightarrow> card_rooms c = None"

text \<open>The listing id of a link, and the detail fetches of a session by listing id.\<close>

definition lid_of :: "str \<Rightarrow> str option" where
  "lid_of link = listing_id_from_link (Some link)"

text \<open>
  How one card changes the session: not at all, or by one detail fetch for an id that the
  cache did not hold, whose result the cache then holds.
\<close>

definition fetched :: "session \<Rightarrow> session \<Rightarrow> bool" where
  "fetched s s' \<longleftrightarrow>
     (\<exists>link lid out. listing_id_from_link (Some link) = Some lid \<and> detail_cache s lid = None \<and>
        s' = s\<lparr>detail_page := (detail_page s)\<lparr>visited := visited (detail_page s) @ [link]\<rparr>,
               detail_cache := (detail_cache s)(lid \<mapsto> out)\<rparr>)"

section \<open>Example inputs\<close>

text \<open>
  A listing whose card links to \<open>/ro/oferta/ap-101.html\<close>, as three cards: one that shows
  nothing but the link; one with a title and a location with its sector, but no room
  count; one with a title only. Its detail page shows the address \<open>Sector 3\<close> and
  \<open>2 camere\<close>. In the example session every detail navigation renders that page.
\<close>

definition ex_text :: "string \<Rightarrow> element" where
  "ex_text t = \<lparr>inner_text = ascii t, get_attribute = (\<lambda>_. None)\<rparr>"

definition ex_anchor :: element where
  "ex_anchor =
     \<lparr>inner_text = [],
      get_attribute = (\<lambda>a. if a = ascii ''href'' then Some (ascii ''/ro/oferta/ap-101.html'')
                           else None)\<rparr>"

definition ex_link :: str where
  "ex_link = ascii ''https://www.storia.ro/ro/oferta/ap-101.html''"

definition ex_card_link_only :: card where
  "ex_card_link_only =
     \<lparr>query_selector_all = (\<lambda>s. if s = ascii ''a[href]'' then [ex_anchor] else []),
      card_inner_text = []\<rparr>"

definition ex_card_A :: card where
  "ex_card_A =
     \<lparr>query_selector_all =
        (\<lambda>s. if s = ascii ''a[href]'' then [ex_anchor]
             else if s = ascii ''h2'' then [ex_text ''Flat A'']
             else if s = ascii ''[data-cy*='location']'' then [ex_text ''Sector 1'']
             else []),
      card_inner_text = ascii ''Flat A Sector 1''\<rparr>"

definition ex_card_B :: card where
  "ex_card_B =
     \<lparr>query_selector_all =
        (\<lambda>s. if s = ascii ''a[href]'' then [ex_anchor]
             else if s = ascii ''h2'' then [ex_text ''Flat A'']
             else []),
      card_inner_text = ascii ''Flat A''\<rparr>"

definition ex_detail_view :: detail_view where
  "ex_detail_view =
     \<lparr>dv_query_selector =
        (\<lambda>s. if s = ascii ''[data-cy*='address']'' then Inr (Some (ex_text ''Sector 3''))
             else if s = ascii ''[data-cy*='rooms']'' then Inr (Some (ex_text ''2 camere''))
             else Inr None),
      dv_inner_text = (\<lambda>_. Inr [])\<rparr>"

definition ex_session :: session where
  "ex_session =
     \<lparr>page = \<lparr>responses = (\<lambda>_ _. Inl OtherException), visited = []\<rparr>,
      detail_page = \<lparr>responses = (\<lambda>_ _. Inr ex_detail_view), visited = []\<rparr>,
      detail_cache = Map.empty\<rparr>"

text \<open>
  A detail page that shows the address and then stops answering: every other read
  raises.
\<close>

definition ex_failing_view :: detail_view where
  "ex_failing_view =
     \<lparr>dv_query_selector =
        (\<lambda>s. if s = ascii ''[data-cy*='address']'' then Inr (Some (ex_text ''Sector 3''))
             else Inl OtherException),
      dv_inner_text = (\<lambda>_. Inl OtherException)\<rparr>"

text \<open>The rows of the example cards, and the enrichment result asked for by card A.\<close>

definition ex_row_A :: row where
  "ex_row_A =
     \<lparr>listing_id = Some (ascii ''101''), Property_Title = Some (ascii ''Flat A''),
      Price_Raw = None, Location_Info = Some (ascii ''Sector 1''), Sector = Some (ascii ''1''),
      Room_Number = Some 2, Area_m2 = None, Link = Some ex_link, Page = 1\<rparr>"

definition ex_row_B :: row where
  "ex_row_B =
     \<lparr>listing_id = Some (ascii ''101''), Property_Title = Some (ascii ''Flat A''),
      Price_Raw = None, Location_Info = None, Sector = None,
      Room_Number = Some 2, Area_m2 = None, Link = Some ex_link, Page = 1\<rparr>"

definition ex_row_link_only :: row where
  "ex_row_link_only =
     \<lparr>listing_id = Some (ascii ''101''), Property_Title = None, Price_Raw = None,
      Location_Info = Some (ascii ''Sector 3''), Sector = Some (ascii ''3''),
      Room_Number = Some 2, Area_m2 = None, Link = Some ex_link, Page = 1\<rparr>"

definition ex_rooms_only :: enrichment where
  "ex_rooms_only =
     \<lparr>d_Location_Info = None, d_Sector = None, d_Room_Number = Some (Some 2)\<rparr>"

section \<open>Vocabulary of the run-level claims\<close>

text \<open>
  Deduplication as the specification words it: going through the rows in order, a row is
  kept when its listing id is absent or differs from the ids of all earlier rows
  (\<open>earlier\<close> holds the ids of the rows before the current one).
\<close>

fun keep_from :: "str option list \<Rightarrow> row list \<Rightarrow> row list" where
  "keep_from earlier [] = []"
| "keep_from earlier (r # rs) =
     (if listing_id r = None \<or> listing_id r \<notin> set earlier then [r] else [])
       @ keep_from (earlier @ [listing_id r]) rs"

definition first_occurrences :: "row list \<Rightarrow> row list" where
  "first_occurrences rows = keep_from [] rows"

text \<open>All rows the page scrapes of a run returned, in order.\<close>

definition produced :: "run_state \<Rightarrow> row list" where
  "produced st = concat (map rp_rows (reports st))"

text \<open>
  The detail fetches of a session are the navigations of its detail tab. No listing id
  was fetched twice, and every fetched id has a cache entry:
\<close>

definition fetch_inv :: "session \<Rightarrow> bool" where
  "fetch_inv s \<longleftrightarrow>
     distinct (map lid_of (visited (detail_page s))) \<and>
     (\<forall>l \<in> set (visited (detail_page s)).
        \<exists>lid. lid_of l = Some lid \<and> detail_cache s lid \<noteq> None)"

definition evolves :: "session \<Rightarrow> session \<Rightarrow> bool" where
  "evolves s s' \<longleftrightarrow>
     (fetch_inv s \<longrightarrow> fetch_inv s') \<and>
     (\<forall>lid r. detail_cache s lid = Some r \<longrightarrow> detail_cache s' lid = Some r)"

definition good_row :: "row \<Rightarrow> bool" where
  "good_row r \<longleftrightarrow> retained r \<and> (\<exists>lid. listing_id r = Some lid \<and> lid \<noteq> [])"

text \<open>The state of a run is consistent with the rows produced so far:\<close>

definition dedup_inv :: "run_state \<Rightarrow> bool" where
  "dedup_inv st \<longleftrightarrow>
     output_csv st = first_occurrences (produced st) \<and>
     seen_ids st = {l. Some l \<in> set (map listing_id (produced st))} \<and>
     (\<forall>r \<in> set (produced st). good_row r)"

text \<open>
  What the retry loop leaves in the report of a page: the failed attempts are the first
  zero to three of 1, 2, 3; after each the loop slept twice its number plus the jitter;
  after three failures the page has no rows; no more rows are appended than the page
  returned.
\<close>

definition report_ok :: "(nat \<Rightarrow> nat \<Rightarrow> real) \<Rightarrow> page_report \<Rightarrow> bool" where
  "report_ok jitter rp \<longleftrightarrow>
     (rp_failed rp = [] \<or> rp_failed rp = [1] \<or> rp_failed rp = [1, 2] \<or> rp_failed rp = [1, 2, 3]) \<and>
     rp_sleeps rp = map (\<lambda>a. 2 * real a + jitter (rp_page rp) a) (rp_failed rp) \<and>
     (rp_failed rp = [1, 2, 3] \<longrightarrow> rp_rows rp = []) \<and>
     rp_added rp \<le> length (rp_rows rp)"

text \<open>
  A results page that renders the card with nothing but the link, and a session whose
  results tab always renders it.
\<close>

definition ex_results_view :: results_view where
  "ex_results_view =
     \<lparr>rv_wait_for_selector = None,
      rv_query_selector_all =
        (\<lambda>s. if s = ascii ''article:has(a[href*='/oferta'])'' then [ex_card_link_only] else []),
      rv_content = Inr []\<rparr>"

definition ex_session_page :: session where
  "ex_session_page =
     \<lparr>page = \<lparr>responses = (\<lambda>_ _. Inr ex_results_view), visited = []\<rparr>,
      detail_page = \<lparr>responses = (\<lambda>_ _. Inr ex_detail_view), visited = []\<rparr>,
      detail_cache = Map.empty\<rparr>"

text \<open>A run state around the example session whose results tab always fails.\<close>

definition ex_state :: run_state where
  "ex_state =
     \<lparr>rs_session = ex_session, seen_ids = {}, output_csv = [], total_rows = 0, reports = []\<rparr>"

text \<open>
  A session whose results tab times out on its first navigation and renders the example
  page from the second on.
\<close>

definition ex_session_retry :: session where
  "ex_session_retry =
     \<lparr>page = \<lparr>responses = (\<lambda>k _. if k = 0 then Inl PlaywrightTimeoutError
                                 else Inr ex_results_view),
              visited = []\<rparr>,
      detail_page = \<lparr>responses = (\<lambda>_ _. Inr ex_detail_view), visited = []\<rparr>,
      detail_cache = Map.empty\<rparr>"

section \<open>Facts about the text functions\<close>

lemma isspace_32: "isspace 32"
  by (simp add: isspace_def)

lemma collapse_ws_Nil_iff: "collapse_ws s = [] \<longleftrightarrow> s = []"
  by (cases s) auto

lemma hd_collapse_ws: "s \<noteq> [] \<Longrightarrow> \<not> isspace (hd s) \<Longrightarrow> hd (collapse_ws s) = hd s"
  by (cases s) auto

lemma hd_dropWhile_collapse:
  "collapse_ws (dropWhile isspace cs) = d # ds \<Longrightarrow> \<not> isspace d"
proof -
  assume a: "collapse_ws (dropWhile isspace cs) = d # ds"
  then have ne: "dropWhile isspace cs \<noteq> []"
    by (auto simp del: dropWhile_eq_Nil_conv)
  then have "\<not> isspace (hd (dropWhile isspace cs))"
    by (rule hd_dropWhile)
  with ne a hd_collapse_ws [of "dropWhile isspace cs"] show ?thesis
    by simp
qed

lemma single_spaced_collapse_ws: "single_spaced (collapse_ws s)"
proof (induction s rule: collapse_ws.induct)
  case 1
  show ?case by simp
next
  case (2 c cs)
  show ?case
  proof (cases "isspace c")
    case True
    with 2 show ?thesis
      by (auto split: list.splits dest: hd_dropWhile_collapse)
  next
    case False
    with 2 show ?thesis
      by (auto split: list.splits)
  qed
qed

lemma collapse_ws_fixed: "single_spaced s \<Longrightarrow> collapse_ws s = s"
proof (induction s rule: collapse_ws.induct)
  case 1
  show ?case by simp
next
  case (2 c cs)
  show ?case
  proof (cases "isspace c")
    case True
    with 2 have "dropWhile isspace cs = cs"
      by (cases cs) auto
    with True 2 show ?thesis
      by auto
  next
    case False
    with 2 show ?thesis
      by auto
  qed
qed

lemma last_collapse_ws:
  "s \<noteq> [] \<Longrightarrow> \<not> isspace (last s) \<Longrightarrow> last (collapse_ws s) = last s"
proof (induction s rule: collapse_ws.induct)
  case 1
  then show ?case by simp
next
  case (2 c cs)
  show ?case
  proof (cases "isspace c")
    case True
    with 2 have cs: "cs \<noteq> []"
      by auto
    with 2 have l: "\<not> isspace (last cs)"
      by simp
    with cs have "last cs \<in> set cs" "\<not> isspace (last cs)"
      by simp_all
    then have ne: "dropWhile isspace cs \<noteq> []"
      by auto
    have eq: "last (dropWhile isspace cs) = last cs"
      using ne by (metis last_appendR takeWhile_dropWhile_id)
    with l have "\<not> isspace (last (dropWhile isspace cs))"
      by simp
    with 2(1) [OF True ne] eq have "last (collapse_ws (dropWhile isspace cs)) = last cs"
      by simp
    moreover have "collapse_ws (dropWhile isspace cs) \<noteq> []"
      using ne by (simp only: collapse_ws_Nil_iff not_False_eq_True)
    ultimately show ?thesis
      using True cs by (simp del: dropWhile_eq_Nil_conv)
  next
    case False
    with 2 show ?thesis
      by (cases cs) (auto simp: collapse_ws_Nil_iff)
  qed
qed

lemma strip_ends:
  assumes "strip t \<noteq> []"
  shows "\<not> isspace (hd (strip t))" and "\<not> isspace (last (strip t))"
proof -
  let ?a = "dropWhile isspace t"
  let ?b = "dropWhile isspace (rev ?a)"
  from assms have b: "?b \<noteq> []"
    by (simp add: strip_def)
  then have a: "?a \<noteq> []"
    by (auto simp del: dropWhile_eq_Nil_conv)
  have "\<not> isspace (hd ?b)"
    using b by (rule hd_dropWhile)
  then show "\<not> isspace (last (strip t))"
    using b by (simp add: strip_def last_rev)
  have ha: "\<not> isspace (hd ?a)"
    using a by (rule hd_dropWhile)
  have "rev ?a = takeWhile isspace (rev ?a) @ ?b"
    by simp
  then have "?a = rev ?b @ rev (takeWhile isspace (rev ?a))"
    by (metis rev_append rev_rev_ident)
  with b have "hd ?a = hd (rev ?b)"
    by (metis hd_append2 rev_is_Nil_conv)
  with ha show "\<not> isspace (hd (strip t))"
    by (simp add: strip_def)
qed

lemma strip_fixed:
  assumes "r \<noteq> []" and "\<not> isspace (hd r)" and "\<not> isspace (last r)"
  shows "strip r = r"
proof -
  from assms have "dropWhile isspace r = r"
    by (cases r) auto
  moreover from assms have "dropWhile isspace (rev r) = rev r"
    by (cases "rev r") (auto simp: last_rev [symmetric] hd_rev)
  ultimately show ?thesis
    by (simp add: strip_def)
qed

lemma single_spaced_nth:
  "single_spaced r \<Longrightarrow> Suc i < length r \<Longrightarrow> \<not> (isspace (r ! i) \<and> isspace (r ! Suc i))"
proof (induction r arbitrary: i)
  case Nil
  then show ?case by simp
next
  case (Cons c cs)
  show ?case
  proof (cases i)
    case 0
    with Cons.prems show ?thesis
      by (cases cs) auto
  next
    case (Suc j)
    with Cons show ?thesis
      by auto
  qed
qed

lemma single_spaced_space: "single_spaced r \<Longrightarrow> c \<in> set r \<Longrightarrow> isspace c \<Longrightarrow> c = 32"
  by (induction r) auto

lemma clean_text_SomeD:
  assumes "clean_text x = Some r"
  shows "r \<noteq> []" and "\<not> isspace (hd r)" and "\<not> isspace (last r)" and "single_spaced r"
proof -
  from assms obtain t where t: "x = Some t" "t \<noteq> []" "r = collapse_ws (strip t)" "r \<noteq> []"
    by (auto simp: clean_text_def Let_def split: option.splits if_splits)
  then have s: "strip t \<noteq> []"
    by (auto simp: collapse_ws_Nil_iff)
  show "r \<noteq> []"
    by (rule t)
  show "\<not> isspace (hd r)"
    using t s strip_ends [OF s] by (simp add: hd_collapse_ws)
  show "\<not> isspace (last r)"
    using t s strip_ends [OF s] by (simp add: last_collapse_ws)
  show "single_spaced r"
    using t by (simp add: single_spaced_collapse_ws)
qed

lemma clean_text_fixed:
  assumes "clean_text x = Some r"
  shows "clean_text (Some r) = Some r"
proof -
  note d = clean_text_SomeD [OF assms]
  have "strip r = r"
    using d by (intro strip_fixed)
  moreover have "collapse_ws r = r"
    using d by (intro collapse_ws_fixed)
  ultimately show ?thesis
    using d by (simp add: clean_text_def)
qed

lemma clean_text_None [simp]: "clean_text None = None"
  by (simp add: clean_text_def)

subsection \<open>Searching, and the patterns of \<open>listing_id_from_link\<close>\<close>

lemma re_search_None_iff:
  "re_search m s = None \<longleftrightarrow> (\<forall>pre post. s = pre @ post \<longrightarrow> m post = None)"
proof (induction s)
  case Nil
  show ?case by simp
next
  case (Cons c cs)
  show ?case
    by (auto simp: Cons Cons_eq_append_conv split: option.splits)
qed

lemma re_search_SomeD:
  "re_search m s = Some g \<Longrightarrow>
   \<exists>pre post. s = pre @ post \<and> m post = Some g \<and>
     (\<forall>p q. s = p @ q \<and> length p < length pre \<longrightarrow> m q = None)"
proof (induction s)
  case Nil
  then show ?case by simp
next
  case (Cons c cs)
  show ?case
  proof (cases "m (c # cs)")
    case (Some a)
    with Cons.prems have "(c # cs) = [] @ (c # cs) \<and> m (c # cs) = Some g"
      by simp
    then show ?thesis
      by (metis length_0_conv less_nat_zero_code list.size(3))
  next
    case None
    with Cons obtain pre post where p: "cs = pre @ post" "m post = Some g"
      "\<forall>p q. cs = p @ q \<and> length p < length pre \<longrightarrow> m q = None"
      by auto
    have "\<forall>p q. c # cs = p @ q \<and> length p < length (c # pre) \<longrightarrow> m q = None"
      using None p(3) by (auto simp: Cons_eq_append_conv)
    with p(1,2) show ?thesis
      by (metis append_Cons)
  qed
qed

lemma starts_withD: "starts_with p s \<Longrightarrow> \<exists>x. s = p @ x"
  by (metis append_take_drop_id starts_with_def)

lemma starts_with_append [simp]: "starts_with p (p @ r)"
  by (simp add: starts_with_def)

lemma isdigit_dot: "\<not> isdigit 46"
  by (simp add: isdigit_def)

lemma takeWhile_digits_stop:
  "\<forall>c \<in> set d. isdigit c \<Longrightarrow> (rest = [] \<or> \<not> isdigit (hd rest)) \<Longrightarrow>
   takeWhile isdigit (d @ rest) = d \<and> dropWhile isdigit (d @ rest) = rest"
  by (cases rest) auto

lemma match_html_id_SomeD:
  assumes "match_html_id s = Some d"
  shows "d \<noteq> [] \<and> (\<forall>c \<in> set d. isdigit c) \<and> (\<exists>rest. s = 45 # d @ ascii ''.html'' @ rest)"
proof -
  from assms obtain r where r: "s = 45 # r" "d = takeWhile isdigit r" "d \<noteq> []"
      "starts_with (ascii ''.html'') (dropWhile isdigit r)"
    by (auto simp: match_html_id_def split: list.splits if_splits)
  from r(4) obtain rest where "dropWhile isdigit r = ascii ''.html'' @ rest"
    by (blast dest: starts_withD)
  then have "r = d @ ascii ''.html'' @ rest"
    unfolding r(2) by (metis takeWhile_dropWhile_id)
  moreover have "\<forall>c \<in> set d. isdigit c"
    unfolding r(2) by (blast dest: set_takeWhileD)
  ultimately show ?thesis
    using r(1,3) by blast
qed

lemma match_html_id_complete:
  assumes "d \<noteq> []" and "\<forall>c \<in> set d. isdigit c"
  shows "match_html_id (45 # d @ ascii ''.html'' @ rest) = Some d"
proof -
  have "takeWhile isdigit (d @ ascii ''.html'' @ rest) = d \<and>
        dropWhile isdigit (d @ ascii ''.html'' @ rest) = ascii ''.html'' @ rest"
    using assms(2) by (intro takeWhile_digits_stop) (simp_all add: ascii_def isdigit_def)
  then show ?thesis
    using assms(1) by (simp add: match_html_id_def starts_with_def ascii_def)
qed

lemma match_query_id_SomeD:
  assumes "match_query_id s = Some d"
  shows "d \<noteq> [] \<and> (\<forall>c \<in> set d. isdigit c) \<and>
         (\<exists>q rest. (q = 63 \<or> q = 38) \<and> s = q # ascii ''id='' @ d @ rest)"
proof -
  from assms obtain q r where r: "s = q # r" "q = 63 \<or> q = 38" "starts_with (ascii ''id='') r"
      "d = takeWhile isdigit (drop 3 r)" "d \<noteq> []"
    by (auto simp: match_query_id_def split: list.splits if_splits)
  from r(3) obtain x where x: "r = ascii ''id='' @ x"
    by (blast dest: starts_withD)
  then have "drop 3 r = x"
    by (simp add: ascii_def)
  with r(4) have d: "d = takeWhile isdigit x"
    by simp
  then have "x = d @ dropWhile isdigit x"
    by simp
  with x have "r = ascii ''id='' @ d @ dropWhile isdigit x"
    by simp
  moreover have "\<forall>c \<in> set d. isdigit c"
    unfolding d by (blast dest: set_takeWhileD)
  ultimately show ?thesis
    using r(1,2,5) by blast
qed

lemma match_query_id_complete:
  assumes "d \<noteq> []" and "\<forall>c \<in> set d. isdigit c" and "q = 63 \<or> q = 38"
  shows "match_query_id (q # ascii ''id='' @ d @ rest) \<noteq> None"
proof -
  from assms obtain c d' where "d = c # d'" "isdigit c"
    by (cases d) auto
  then show ?thesis
    using assms(3) by (auto simp: match_query_id_def starts_with_def ascii_def)
qed


lemma length_split_on: "length (split_on d s) = Suc (length (filter (\<lambda>c. c = d) s))"
  by (induction s) (auto split: list.splits)

lemma split_on_no_sep: "d \<notin> set s \<Longrightarrow> split_on d s = [s]"
  by (induction s) auto

lemma last_split_on_sep: "d \<notin> set b \<Longrightarrow> last (split_on d (a @ d # b)) = b"
proof (induction a)
  case Nil
  then show ?case by (simp add: split_on_no_sep)
next
  case (Cons c a)
  have "length (split_on d (a @ d # b)) \<ge> 2"
    by (simp add: length_split_on)
  then obtain x y ys where "split_on d (a @ d # b) = x # y # ys"
    by (cases "split_on d (a @ d # b)"; cases "tl (split_on d (a @ d # b))") auto
  with Cons show ?case
    by auto
qed

lemma last_split_on:
  "\<exists>seg. last (split_on d t) = seg \<and> d \<notin> set seg \<and> (t = seg \<or> (\<exists>a. t = a @ d # seg))"
proof (cases "d \<in> set t")
  case True
  then obtain a b where "t = a @ d # b" "d \<notin> set b"
    by (blast dest: split_list_last)
  then show ?thesis
    by (auto simp: last_split_on_sep)
next
  case False
  then show ?thesis
    by (simp add: split_on_no_sep)
qed

lemma rstrip_char_props:
  "(rstrip_char d s = [] \<or> last (rstrip_char d s) \<noteq> d) \<and>
   (\<exists>n. s = rstrip_char d s @ replicate n d)"
proof -
  let ?P = "\<lambda>c. c = d"
  have "rev s = takeWhile ?P (rev s) @ dropWhile ?P (rev s)"
    by simp
  then have A: "s = rev (dropWhile ?P (rev s)) @ rev (takeWhile ?P (rev s))"
    by (metis rev_append rev_rev_ident)
  have "replicate (length (takeWhile ?P (rev s))) d = takeWhile ?P (rev s)"
    by (rule replicate_length_same) (auto dest: set_takeWhileD)
  then obtain n where "takeWhile ?P (rev s) = replicate n d"
    by metis
  then have B: "rev (takeWhile ?P (rev s)) = replicate n d"
    by simp
  have "s = rstrip_char d s @ replicate n d"
    unfolding rstrip_char_def using A B by metis
  moreover have "rstrip_char d s = [] \<or> last (rstrip_char d s) \<noteq> d"
    using hd_dropWhile [of ?P "rev s"] by (auto simp: rstrip_char_def last_rev)
  ultimately show ?thesis
    by blast
qed

lemma html_id_occurs_iff:
  "re_search match_html_id l = None \<longleftrightarrow>
   \<not> (\<exists>pre d post. l = pre @ 45 # d @ ascii ''.html'' @ post \<and> d \<noteq> [] \<and> (\<forall>c \<in> set d. isdigit c))"
proof
  assume n: "re_search match_html_id l = None"
  show "\<not> (\<exists>pre d post. l = pre @ 45 # d @ ascii ''.html'' @ post \<and> d \<noteq> [] \<and> (\<forall>c \<in> set d. isdigit c))"
  proof
    assume "\<exists>pre d post. l = pre @ 45 # d @ ascii ''.html'' @ post \<and> d \<noteq> [] \<and> (\<forall>c \<in> set d. isdigit c)"
    then obtain pre d post where o: "l = pre @ 45 # d @ ascii ''.html'' @ post" "d \<noteq> []"
        "\<forall>c \<in> set d. isdigit c"
      by blast
    from n o(1) have "match_html_id (45 # d @ ascii ''.html'' @ post) = None"
      by (simp add: re_search_None_iff)
    with match_html_id_complete [OF o(2,3)] show False
      by simp
  qed
next
  assume a: "\<not> (\<exists>pre d post. l = pre @ 45 # d @ ascii ''.html'' @ post \<and> d \<noteq> [] \<and> (\<forall>c \<in> set d. isdigit c))"
  show "re_search match_html_id l = None"
  proof (rule ccontr)
    assume "re_search match_html_id l \<noteq> None"
    then obtain g where "re_search match_html_id l = Some g"
      by auto
    then obtain pre post where "l = pre @ post" "match_html_id post = Some g"
      by (blast dest: re_search_SomeD)
    with a show False
      by (blast dest: match_html_id_SomeD)
  qed
qed

lemma query_id_occurs_iff:
  "re_search match_query_id l = None \<longleftrightarrow>
   \<not> (\<exists>pre q d post. (q = 63 \<or> q = 38) \<and> l = pre @ q # ascii ''id='' @ d @ post \<and>
        d \<noteq> [] \<and> (\<forall>c \<in> set d. isdigit c))"
proof
  assume n: "re_search match_query_id l = None"
  show "\<not> (\<exists>pre q d post. (q = 63 \<or> q = 38) \<and> l = pre @ q # ascii ''id='' @ d @ post \<and>
        d \<noteq> [] \<and> (\<forall>c \<in> set d. isdigit c))"
  proof
    assume "\<exists>pre q d post. (q = 63 \<or> q = 38) \<and> l = pre @ q # ascii ''id='' @ d @ post \<and>
        d \<noteq> [] \<and> (\<forall>c \<in> set d. isdigit c)"
    then obtain pre q d post where o: "q = 63 \<or> q = 38" "l = pre @ q # ascii ''id='' @ d @ post"
        "d \<noteq> []" "\<forall>c \<in> set d. isdigit c"
      by blast
    from n o(2) have "match_query_id (q # ascii ''id='' @ d @ post) = None"
      by (simp add: re_search_None_iff)
    with match_query_id_complete [OF o(3,4,1), of post] show False
      by simp
  qed
next
  assume a: "\<not> (\<exists>pre q d post. (q = 63 \<or> q = 38) \<and> l = pre @ q # ascii ''id='' @ d @ post \<and>
        d \<noteq> [] \<and> (\<forall>c \<in> set d. isdigit c))"
  show "re_search match_query_id l = None"
  proof (rule ccontr)
    assume "re_search match_query_id l \<noteq> None"
    then obtain g where "re_search match_query_id l = Some g"
      by auto
    then obtain pre post where "l = pre @ post" "match_query_id post = Some g"
      by (blast dest: re_search_SomeD)
    with a show False
      by (blast dest: match_query_id_SomeD)
  qed
qed

lemma html_id_found:
  assumes "re_search match_html_id l = Some d"
  shows "d \<noteq> [] \<and> (\<forall>c \<in> set d. isdigit c) \<and>
         (\<exists>pre post. l = pre @ 45 # d @ ascii ''.html'' @ post)"
proof -
  from assms obtain pre post where "l = pre @ post" "match_html_id post = Some d"
    by (blast dest: re_search_SomeD)
  then show ?thesis
    by (blast dest: match_html_id_SomeD)
qed

lemma query_id_found:
  assumes "re_search match_query_id l = Some d"
  shows "d \<noteq> [] \<and> (\<forall>c \<in> set d. isdigit c) \<and>
         (\<exists>pre q post. (q = 63 \<or> q = 38) \<and> l = pre @ q # ascii ''id='' @ d @ post)"
proof -
  from assms obtain pre post where "l = pre @ post" "match_query_id post = Some d"
    by (blast dest: re_search_SomeD)
  then show ?thesis
    by (blast dest: match_query_id_SomeD)
qed

lemma match_id_Nil [simp]: "match_html_id [] = None" "match_query_id [] = None"
  by (simp_all add: match_html_id_def match_query_id_def)

subsection \<open>The extractors and the resolver\<close>

lemma clean_text_not_empty: "clean_text x \<noteq> Some []"
  using clean_text_SomeD(1) [of x "[]"] by auto

lemma truthy_clean_text: "truthy (clean_text x) \<longleftrightarrow> clean_text x \<noteq> None"
  by (simp add: truthy_def clean_text_not_empty)

lemma pick_first_attr_loop_not_empty: "pick_first_attr_loop el names \<noteq> Some []"
  by (induction names) (auto simp: Let_def truthy_def)

lemma selector_loop_resolve: "selector_loop c n sels = resolve c (map Text sels) n"
proof (induction sels)
  case Nil
  show ?case by simp
next
  case (Cons sel sels)
  show ?case
  proof (cases "query_selector c sel")
    case None
    with Cons show ?thesis
      by (simp add: accepted_def)
  next
    case (Some el)
    with Cons show ?thesis
      by (cases "clean_text (Some (inner_text el))")
        (auto simp: accepted_def Let_def truthy_def clean_text_not_empty)
  qed
qed

lemma resolve_append:
  "resolve c (xs @ ys) n = (case resolve c xs n of Some t \<Rightarrow> Some t | None \<Rightarrow> resolve c ys n)"
  by (induction xs) (auto split: option.splits)

lemma extract_title_resolve: "extract_title c = resolve c title_chain 3"
proof (cases "selector_loop c 3 TITLE_SELECTORS")
  case None
  show ?thesis
  proof (cases "query_selector c (ascii ''a[href]'')")
    case n: None
    with None show ?thesis
      by (simp add: extract_title_def title_chain_def resolve_append
          selector_loop_resolve [symmetric] accepted_def)
  next
    case (Some a)
    with None show ?thesis
      using pick_first_attr_loop_not_empty [of a "[ascii ''title'', ascii ''aria-label'']"]
      by (cases "pick_first_attr_loop a [ascii ''title'', ascii ''aria-label'']")
        (simp_all add: extract_title_def title_chain_def resolve_append
          selector_loop_resolve [symmetric] accepted_def pick_first_attr_def truthy_def
          del: pick_first_attr_loop.simps)
  qed
next
  case (Some t)
  then show ?thesis
    by (simp add: extract_title_def title_chain_def resolve_append
        selector_loop_resolve [symmetric])
qed

lemma resolve_None_iff:
  "resolve c chain n = None \<longleftrightarrow> (\<forall>i < length chain. accepted c (chain ! i) n = None)"
proof (induction chain)
  case Nil
  show ?case by simp
next
  case (Cons loc chain)
  show ?case
    by (auto simp: Cons less_Suc_eq_0_disj split: option.splits)
qed

lemma resolve_Some_iff:
  "resolve c chain n = Some t \<longleftrightarrow>
   (\<exists>i < length chain. accepted c (chain ! i) n = Some t \<and>
      (\<forall>j < i. accepted c (chain ! j) n = None))"
proof (induction chain)
  case Nil
  show ?case by simp
next
  case (Cons loc chain)
  show ?case
  proof (cases "accepted c loc n")
    case None
    have "(\<exists>i < length (loc # chain). accepted c ((loc # chain) ! i) n = Some t \<and>
            (\<forall>j < i. accepted c ((loc # chain) ! j) n = None)) \<longleftrightarrow>
          (\<exists>i < length chain. accepted c (chain ! i) n = Some t \<and>
            (\<forall>j < i. accepted c (chain ! j) n = None))"
      (is "?L \<longleftrightarrow> ?R")
    proof
      assume ?L
      then obtain i where i: "i < length (loc # chain)"
          "accepted c ((loc # chain) ! i) n = Some t"
          "\<forall>j < i. accepted c ((loc # chain) ! j) n = None"
        by blast
      with None obtain k where k: "i = Suc k"
        by (cases i) auto
      with i have "k < length chain" "accepted c (chain ! k) n = Some t"
        by auto
      moreover have "\<forall>j < k. accepted c (chain ! j) n = None"
      proof (intro allI impI)
        fix j assume "j < k"
        then have "Suc j < i" using k by simp
        with i(3) have "accepted c ((loc # chain) ! Suc j) n = None" by blast
        then show "accepted c (chain ! j) n = None" by simp
      qed
      ultimately show ?R by blast
    next
      assume ?R
      then obtain k where k: "k < length chain" "accepted c (chain ! k) n = Some t"
          "\<forall>j < k. accepted c (chain ! j) n = None"
        by blast
      have "\<forall>j < Suc k. accepted c ((loc # chain) ! j) n = None"
      proof (intro allI impI)
        fix j assume "j < Suc k"
        then show "accepted c ((loc # chain) ! j) n = None"
          using None k(3) by (cases j) auto
      qed
      with k(1,2) show ?L
        by (intro exI [of _ "Suc k"]) simp
    qed
    with None Cons show ?thesis
      by simp
  next
    case (Some u)
    have "(\<exists>i < length (loc # chain). accepted c ((loc # chain) ! i) n = Some t \<and>
            (\<forall>j < i. accepted c ((loc # chain) ! j) n = None)) \<longleftrightarrow> u = t"
      (is "?L \<longleftrightarrow> _")
    proof
      assume ?L
      then obtain i where i: "accepted c ((loc # chain) ! i) n = Some t"
          "\<forall>j < i. accepted c ((loc # chain) ! j) n = None"
        by blast
      have "i = 0"
      proof (rule ccontr)
        assume "i \<noteq> 0"
        with i(2) have "accepted c ((loc # chain) ! 0) n = None" by blast
        with Some show False by simp
      qed
      with i(1) Some show "u = t" by simp
    next
      assume "u = t"
      with Some show ?L
        by (intro exI [of _ 0]) simp
    qed
    with Some show ?thesis
      by simp
  qed
qed

subsection \<open>Enrichment and the loop over the cards\<close>

lemma truthyD: "truthy x \<Longrightarrow> \<exists>v. x = Some v \<and> v \<noteq> []"
  by (cases x) (auto simp: truthy_def)

lemma goto_simps [simp]:
  "fst (goto t url) = responses t (length (visited t)) url"
  "snd (goto t url) = t\<lparr>visited := visited t @ [url]\<rparr>"
  by (simp_all add: goto_def)

lemma enrich_from_detail_eq:
  "enrich_from_detail dp link nl nr =
     (Inr (fst (try_block (responses dp (length (visited dp)) link) nl nr)),
      dp\<lparr>visited := visited dp @ [link]\<rparr>)"
  by (simp add: enrich_from_detail_def goto_def split: prod.splits option.splits)

lemma cached_enrichment_hit:
  "detail_cache s lid = Some r \<Longrightarrow> cached_enrichment s lid link nl nr = (Inr r, s)"
  by (simp add: cached_enrichment_def)

lemma cached_enrichment_miss:
  "detail_cache s lid = None \<Longrightarrow>
   cached_enrichment s lid link nl nr =
     (Inr (fst (try_block (responses (detail_page s) (length (visited (detail_page s))) link) nl nr)),
      s\<lparr>detail_page := (detail_page s)\<lparr>visited := visited (detail_page s) @ [link]\<rparr>,
        detail_cache := (detail_cache s)(lid \<mapsto>
          fst (try_block (responses (detail_page s) (length (visited (detail_page s))) link) nl nr))\<rparr>)"
  by (simp add: cached_enrichment_def enrich_from_detail_eq)

lemma cached_enrichment_Inr: "\<exists>out. fst (cached_enrichment s lid link nl nr) = Inr out"
  by (cases "detail_cache s lid") (simp_all add: cached_enrichment_hit cached_enrichment_miss)

lemma scrape_card_session:
  "snd (scrape_card c pn s) = s \<or> fetched s (snd (scrape_card c pn s))"
proof (cases "\<not> truthy (extract_listing_link c) \<or>
    \<not> contains (ascii ''/oferta'') (the (extract_listing_link c))")
  case True
  then show ?thesis
    by (auto simp: scrape_card_def Let_def)
next
  case False
  then obtain link where link: "extract_listing_link c = Some link"
    by (auto dest: truthyD)
  show ?thesis
  proof (cases "truthy (listing_id_from_link (Some link))")
    case t: True
    then obtain lid where lid: "listing_id_from_link (Some link) = Some lid"
      by (auto dest: truthyD)
    show ?thesis
    proof (cases "detail_cache s lid")
      case None
      then show ?thesis
        using False link lid
        by (auto simp: scrape_card_def Let_def cached_enrichment_miss fetched_def
            split: prod.splits)
    next
      case (Some r)
      then show ?thesis
        using False link lid
        by (auto simp: scrape_card_def Let_def cached_enrichment_hit split: prod.splits)
    qed
  next
    case f: False
    then show ?thesis
      using False link by (auto simp: scrape_card_def Let_def split: prod.splits)
  qed
qed

lemma scrape_card_Inr: "\<exists>ro. fst (scrape_card c pn s) = Inr ro"
proof (cases "\<not> truthy (extract_listing_link c) \<or>
    \<not> contains (ascii ''/oferta'') (the (extract_listing_link c))")
  case True
  then show ?thesis
    by (auto simp: scrape_card_def Let_def)
next
  case False
  then obtain link where link: "extract_listing_link c = Some link"
    by (auto dest: truthyD)
  show ?thesis
  proof (cases "truthy (listing_id_from_link (Some link))")
    case t: True
    then obtain lid where lid: "listing_id_from_link (Some link) = Some lid"
      by (auto dest: truthyD)
    show ?thesis
    proof (cases "detail_cache s lid")
      case None
      then show ?thesis
        using False link lid
        by (auto simp: scrape_card_def Let_def cached_enrichment_miss split: prod.splits)
    next
      case (Some r)
      then show ?thesis
        using False link lid
        by (auto simp: scrape_card_def Let_def cached_enrichment_hit split: prod.splits)
    qed
  next
    case f: False
    then show ?thesis
      using False link by (auto simp: scrape_card_def Let_def split: prod.splits)
  qed
qed

lemma scrape_cards_Inr: "\<exists>rows'. fst (scrape_cards cs pn rows s) = Inr rows'"
proof (induction cs arbitrary: rows s)
  case Nil
  show ?case by simp
next
  case (Cons c cs)
  obtain ro s' where r: "scrape_card c pn s = (Inr ro, s')"
    using scrape_card_Inr [of c pn s] by (cases "scrape_card c pn s") auto
  show ?case
    using r Cons [of _ s'] by (cases ro) auto
qed


lemma selector_loop_not_empty: "selector_loop c n sels \<noteq> Some []"
  by (induction sels) (auto simp: Let_def truthy_def split: option.splits)

lemma match_sector_not_empty: "re_search match_sector s \<noteq> Some []"
proof
  assume "re_search match_sector s = Some []"
  then obtain post where "match_sector post = Some []"
    by (blast dest: re_search_SomeD)
  then show False
    by (auto simp: match_sector_def Let_def split: if_splits list.splits)
qed

lemma extract_sector_not_empty: "extract_sector x \<noteq> Some []"
  by (auto simp: extract_sector_def match_sector_not_empty split: option.splits)

lemma truthy_iff_Some:
  "truthy (extract_location c) \<longleftrightarrow> extract_location c \<noteq> None"
  "truthy (extract_sector x) \<longleftrightarrow> extract_sector x \<noteq> None"
  using selector_loop_not_empty [of c 2 LOCATION_SELECTORS] extract_sector_not_empty [of x]
  by (auto simp: truthy_def extract_location_def)

lemma backfill_keeps:
  assumes "backfill cached nl nr (loc, sec, rooms) = (loc', sec', rooms')"
  shows "truthy loc \<Longrightarrow> loc' = loc" and "truthy sec \<Longrightarrow> sec' = sec"
    and "rooms \<noteq> None \<Longrightarrow> rooms' = rooms"
  using assms by (auto simp: backfill_def py_or_def split: if_splits)

lemma cached_enrichment_cache:
  "cached_enrichment s lid link nl nr = (Inr cached, s') \<Longrightarrow> detail_cache s' lid = Some cached"
  by (cases "detail_cache s lid") (auto simp: cached_enrichment_hit cached_enrichment_miss)

lemma scrape_card_rowD:
  assumes "fst (scrape_card c pn s) = Inr (Some r)"
  shows "\<exists>link triple. extract_listing_link c = Some link \<and> link \<noteq> [] \<and>
     contains (ascii ''/oferta'') link \<and> retained r \<and>
     r = make_row (lid_of link) (extract_title c) (extract_price c) triple (card_area c)
           (Some link) pn \<and>
     (triple = (extract_location c, card_sector c, card_rooms c) \<or>
      (\<exists>cached. triple = backfill cached (need_location c) (need_rooms c)
                   (extract_location c, card_sector c, card_rooms c) \<and>
         (need_location c \<or> need_rooms c) \<and> truthy (lid_of link) \<and>
         detail_cache (snd (scrape_card c pn s)) (the (lid_of link)) = Some cached))"
proof (cases "\<not> truthy (extract_listing_link c) \<or>
    \<not> contains (ascii ''/oferta'') (the (extract_listing_link c))")
  case True
  with assms show ?thesis
    by (auto simp: scrape_card_def Let_def)
next
  case False
  then obtain link where link: "extract_listing_link c = Some link" "link \<noteq> []"
    by (auto dest: truthyD)
  with False have cont: "contains (ascii ''/oferta'') link"
    by simp
  obtain rooms area where ra: "parse_rooms_area_from_text (card_text c) = (rooms, area)"
    by (cases "parse_rooms_area_from_text (card_text c)") auto
  show ?thesis
  proof (cases "(need_location c \<or> need_rooms c) \<and> truthy (lid_of link)")
    case t: True
    obtain cached s' where ce: "cached_enrichment s (the (lid_of link)) link
        (need_location c) (need_rooms c) = (Inr cached, s')"
      using cached_enrichment_Inr [of s "the (lid_of link)" link "need_location c" "need_rooms c"]
      by (cases "cached_enrichment s (the (lid_of link)) link (need_location c) (need_rooms c)")
        auto
    from assms False link ra t ce
    have "retained r \<and> r = make_row (lid_of link) (extract_title c) (extract_price c)
        (backfill cached (need_location c) (need_rooms c)
           (extract_location c, card_sector c, card_rooms c)) (card_area c) (Some link) pn"
      by (auto simp: scrape_card_def Let_def ENABLE_DETAIL_ENRICH_def lid_of_def
          need_location_def need_rooms_def card_sector_def card_rooms_def card_area_def
          card_text_def split: if_splits)
    moreover from False link ra t ce have "snd (scrape_card c pn s) = s'"
      by (auto simp: scrape_card_def Let_def ENABLE_DETAIL_ENRICH_def lid_of_def
          need_location_def need_rooms_def card_sector_def card_rooms_def card_area_def
          card_text_def split: if_splits)
    moreover from ce have "detail_cache s' (the (lid_of link)) = Some cached"
      by (rule cached_enrichment_cache)
    ultimately show ?thesis
      using link cont t by blast
  next
    case f: False
    from assms False link ra f
    have "retained r \<and> r = make_row (lid_of link) (extract_title c) (extract_price c)
        (extract_location c, card_sector c, card_rooms c) (card_area c) (Some link) pn"
      by (auto simp: scrape_card_def Let_def ENABLE_DETAIL_ENRICH_def lid_of_def
          need_location_def need_rooms_def card_sector_def card_rooms_def card_area_def
          card_text_def split: if_splits)
    with link cont show ?thesis
      by blast
  qed
qed


lemma contains_set: "contains p s \<Longrightarrow> set p \<subseteq> set s"
proof (induction s)
  case Nil
  then show ?case by simp
next
  case (Cons c cs)
  show ?case
  proof (cases "starts_with p (c # cs)")
    case True
    then obtain x where "c # cs = p @ x"
      by (blast dest: starts_withD)
    then show ?thesis
      by (metis set_append Un_upper1)
  next
    case False
    with Cons show ?thesis
      by auto
  qed
qed

lemma last_segment_not_empty:
  assumes "c \<in> set l" and "c \<noteq> d"
  shows "last (split_on d (rstrip_char d l)) \<noteq> []"
proof -
  let ?t = "rstrip_char d l"
  obtain n where n: "?t = [] \<or> last ?t \<noteq> d" "l = ?t @ replicate n d"
    using rstrip_char_props [of d l] by blast
  have "c \<in> set ?t"
  proof -
    from assms(1) n(2) have "c \<in> set ?t \<or> c \<in> set (replicate n d)"
      by (metis Un_iff set_append)
    with assms(2) show ?thesis
      by auto
  qed
  then have t: "?t \<noteq> []" "last ?t \<noteq> d"
    using n(1) by auto
  obtain seg where s: "last (split_on d ?t) = seg" "?t = seg \<or> (\<exists>a. ?t = a @ d # seg)"
    using last_split_on [of d ?t] by blast
  have "seg \<noteq> []"
  proof
    assume "seg = []"
    with s(2) t show False
      by auto
  qed
  with s(1) show ?thesis
    by simp
qed

lemma lid_of_oferta:
  assumes "contains (ascii ''/oferta'') link"
  shows "\<exists>lid. lid_of link = Some lid \<and> lid \<noteq> []"
proof -
  from contains_set [OF assms] have o: "111 \<in> set link"
    by (simp add: ascii_def)
  then have ne: "link \<noteq> []"
    by auto
  show ?thesis
  proof (cases "re_search match_html_id link")
    case (Some d)
    with html_id_found [OF Some] ne show ?thesis
      by (simp add: lid_of_def listing_id_from_link_def)
  next
    case None
    show ?thesis
    proof (cases "re_search match_query_id link")
      case (Some d)
      with html_id_found query_id_found [OF Some] None ne show ?thesis
        by (simp add: lid_of_def listing_id_from_link_def)
    next
      case n: None
      have "last (split_on 47 (rstrip_char 47 link)) \<noteq> []"
        using o by (rule last_segment_not_empty) simp
      with None n ne show ?thesis
        by (simp add: lid_of_def listing_id_from_link_def)
    qed
  qed
qed

lemma scrape_card_row_lid:
  assumes "fst (scrape_card c pn s) = Inr (Some r)"
  shows "\<exists>lid. listing_id r = Some lid \<and> lid \<noteq> []"
proof -
  from scrape_card_rowD [OF assms] obtain link triple where
    "contains (ascii ''/oferta'') link"
    "r = make_row (lid_of link) (extract_title c) (extract_price c) triple (card_area c)
           (Some link) pn"
    by blast
  with lid_of_oferta [of link] show ?thesis
    by (cases triple) (auto simp: make_row_def)
qed

subsection \<open>The example inputs evaluated\<close>

lemmas ex_defs = ex_text_def ex_anchor_def ex_link_def ex_card_link_only_def ex_card_A_def
  ex_card_B_def ex_detail_view_def ex_session_def

lemmas text_defs = ascii_def isspace_def isdigit_def strip_def clean_text_def truthy_def
  starts_with_def lower_def lower_char_def

lemma ex_link_only_fields:
  "extract_listing_link ex_card_link_only = Some ex_link"
  "extract_title ex_card_link_only = None"
  "extract_price ex_card_link_only = None"
  "extract_location ex_card_link_only = None"
     apply (simp add: ex_defs text_defs extract_listing_link_def looks_like_listing_link_def normalize_link_def BASE_URL_def)
    apply (simp add: ex_defs text_defs extract_title_def TITLE_SELECTORS_def query_selector_def pick_first_attr_def Let_def)
   apply (simp add: ex_defs text_defs extract_price_def PRICE_SELECTORS_def query_selector_def)
  apply (simp add: ex_defs text_defs extract_location_def LOCATION_SELECTORS_def query_selector_def)
  done

lemma ex_lid: "lid_of ex_link = Some (ascii ''101'')" "contains (ascii ''/oferta'') ex_link"
  by (simp_all add: lid_of_def ex_link_def listing_id_from_link_def match_html_id_def text_defs)

lemma ex_detail_location:
  "extract_location_from_detail ex_detail_view = Inr (Some (ascii ''Sector 3''))"
  by (simp add: extract_location_from_detail_def DETAIL_LOCATION_SELECTORS_def ex_defs text_defs Let_def)

lemma ex_detail_rooms:
  "extract_rooms_from_detail ex_detail_view = Inr (Some 2)"
  by (simp add: extract_rooms_from_detail_def DETAIL_ROOMS_SELECTORS_def ex_defs text_defs Let_def
     safe_int_from_match_def match_rooms_ci_def starts_with_ci_def ci_char_def int_of_digits_def)

lemma ex_sector3: "extract_sector (Some (ascii ''Sector 3'')) = Some (ascii ''3'')"
  by (simp add: extract_sector_def match_sector_def text_defs Let_def)

lemma ex_try_block_loc:
  "try_block (Inr ex_detail_view) True True =
     (\<lparr>d_Location_Info = Some (Some (ascii ''Sector 3'')), d_Sector = Some (Some (ascii ''3'')),
       d_Room_Number = Some (Some 2)\<rparr>, None)"
  by (simp add: try_block_def location_step_def rooms_step_def ex_detail_location ex_detail_rooms
      ex_sector3 empty_dict_def)

lemma ex_scrape_link_only:
  "fst (scrape_card ex_card_link_only 1 ex_session) =
     Inr (Some \<lparr>listing_id = Some (ascii ''101''), Property_Title = None, Price_Raw = None,
       Location_Info = Some (ascii ''Sector 3''), Sector = Some (ascii ''3''),
       Room_Number = Some 2, Area_m2 = None, Link = Some ex_link, Page = 1\<rparr>)"
proof -
  have ra: "parse_rooms_area_from_text [] = (None, None)"
    by (simp add: parse_rooms_area_from_text_def match_rooms_def match_area_def text_defs)
  have ct: "clean_text (Some (card_inner_text ex_card_link_only)) = None"
    by (simp add: ex_defs clean_text_def)
  have dc: "detail_cache ex_session (ascii ''101'') = None"
    by (simp add: ex_session_def)
  have r: "responses (detail_page ex_session) (length (visited (detail_page ex_session))) ex_link
      = Inr ex_detail_view"
    by (simp add: ex_session_def)
  have ne: "ex_link \<noteq> []" "ascii ''101'' \<noteq> []" "ascii ''Sector 3'' \<noteq> []"
    by (simp_all add: ex_link_def ascii_def)
  show ?thesis
    using ex_lid ne
    by (simp add: scrape_card_def ex_link_only_fields ra ct lid_of_def [symmetric]
        cached_enrichment_miss [OF dc] r ex_try_block_loc ENABLE_DETAIL_ENRICH_def
        extract_sector_def make_row_def backfill_def py_or_def dict_get_def retained_def
        truthy_def)
qed

subsection \<open>The loop body in closed form\<close>

lemma scrape_card_enrich:
  assumes "extract_listing_link c = Some link" "link \<noteq> []" "contains (ascii ''/oferta'') link"
    and "lid_of link = Some lid" "need_location c \<or> need_rooms c"
  shows "scrape_card c pn s =
     (case cached_enrichment s lid link (need_location c) (need_rooms c) of
        (Inl e, s') \<Rightarrow> (Inl e, s')
      | (Inr cached, s') \<Rightarrow>
          (let r = make_row (Some lid) (extract_title c) (extract_price c)
                     (backfill cached (need_location c) (need_rooms c)
                        (extract_location c, card_sector c, card_rooms c))
                     (card_area c) (Some link) pn
           in (Inr (if retained r then Some r else None), s')))"
proof -
  from lid_of_oferta [OF assms(3)] assms(4) have t: "truthy (Some lid)"
    by (simp add: truthy_def)
  from assms t show ?thesis
    unfolding scrape_card_def need_location_def need_rooms_def card_sector_def card_rooms_def
      card_area_def card_text_def lid_of_def
    by (simp add: Let_def case_prod_beta ENABLE_DETAIL_ENRICH_def truthy_def)
qed

lemma try_block_flags:
  "\<not> nl \<Longrightarrow> d_Location_Info (fst (try_block nav nl nr)) = None \<and>
     d_Sector (fst (try_block nav nl nr)) = None"
  "\<not> nr \<Longrightarrow> d_Room_Number (fst (try_block nav nl nr)) = None"
  by (auto simp: try_block_def location_step_def rooms_step_def empty_dict_def Let_def
      split: sum.splits)

lemma scrape_card_cache_mono:
  assumes "detail_cache s lid = Some cached"
  shows "detail_cache (snd (scrape_card c pn s)) lid = Some cached"
  using scrape_card_session [of c pn s] assms by (auto simp: fetched_def)


lemma ex_A_fields:
  "extract_listing_link ex_card_A = Some ex_link"
  "extract_title ex_card_A = Some (ascii ''Flat A'')"
  "extract_price ex_card_A = None"
  "extract_location ex_card_A = Some (ascii ''Sector 1'')"
  "card_sector ex_card_A = Some (ascii ''1'')"
  "card_rooms ex_card_A = None"
  "card_area ex_card_A = None"
        apply (simp add: ex_defs text_defs extract_listing_link_def looks_like_listing_link_def
          normalize_link_def BASE_URL_def)
       apply (simp add: ex_defs text_defs extract_title_def TITLE_SELECTORS_def
          query_selector_def Let_def)
      apply (simp add: ex_defs text_defs extract_price_def PRICE_SELECTORS_def query_selector_def)
     apply (simp add: ex_defs text_defs extract_location_def LOCATION_SELECTORS_def
          query_selector_def Let_def)
    apply (simp add: ex_defs text_defs card_sector_def extract_location_def
          LOCATION_SELECTORS_def query_selector_def Let_def extract_sector_def match_sector_def)
   apply (simp add: ex_defs text_defs card_rooms_def card_text_def
          parse_rooms_area_from_text_def match_rooms_def match_area_def Let_def)
  apply (simp add: ex_defs text_defs card_area_def card_text_def
          parse_rooms_area_from_text_def match_rooms_def match_area_def Let_def)
  done

lemma ex_B_fields:
  "extract_listing_link ex_card_B = Some ex_link"
  "extract_title ex_card_B = Some (ascii ''Flat A'')"
  "extract_price ex_card_B = None"
  "extract_location ex_card_B = None"
  "card_sector ex_card_B = None"
  "card_rooms ex_card_B = None"
  "card_area ex_card_B = None"
        apply (simp add: ex_defs text_defs extract_listing_link_def looks_like_listing_link_def
          normalize_link_def BASE_URL_def)
       apply (simp add: ex_defs text_defs extract_title_def TITLE_SELECTORS_def
          query_selector_def Let_def)
      apply (simp add: ex_defs text_defs extract_price_def PRICE_SELECTORS_def query_selector_def)
     apply (simp add: ex_defs text_defs extract_location_def LOCATION_SELECTORS_def
          query_selector_def Let_def)
    apply (simp add: ex_defs text_defs card_sector_def extract_location_def
          LOCATION_SELECTORS_def query_selector_def Let_def extract_sector_def)
   apply (simp add: ex_defs text_defs card_rooms_def card_text_def
          parse_rooms_area_from_text_def match_rooms_def match_area_def Let_def)
  apply (simp add: ex_defs text_defs card_area_def card_text_def
          parse_rooms_area_from_text_def match_rooms_def match_area_def Let_def)
  done

lemma ex_needs:
  "\<not> need_location ex_card_A" "need_rooms ex_card_A"
  "need_location ex_card_B" "need_rooms ex_card_B"
  by (simp_all add: need_location_def need_rooms_def ex_A_fields ex_B_fields)

lemma ex_ne: "ex_link \<noteq> []" "ascii ''101'' \<noteq> []" "ascii ''Sector 3'' \<noteq> []"
  "ascii ''Sector 1'' \<noteq> []" "ascii ''Flat A'' \<noteq> []" "ascii ''1'' \<noteq> []"
  by (simp_all add: ex_link_def ascii_def)

lemma ex_try_block_rooms: "try_block (Inr ex_detail_view) False True = (ex_rooms_only, None)"
  by (simp add: try_block_def location_step_def rooms_step_def ex_detail_rooms empty_dict_def
      ex_rooms_only_def)

lemma ex_failing_steps:
  "location_step ex_failing_view True empty_dict =
     Inr \<lparr>d_Location_Info = Some (Some (ascii ''Sector 3'')), d_Sector = Some (Some (ascii ''3'')),
          d_Room_Number = None\<rparr>"
  "rooms_step ex_failing_view True out = Inl OtherException"
   apply (simp add: location_step_def extract_location_from_detail_def
      DETAIL_LOCATION_SELECTORS_def ex_failing_view_def ex_text_def text_defs Let_def
      ex_sector3 [unfolded ascii_def, simplified] empty_dict_def)
  apply (simp add: rooms_step_def extract_rooms_from_detail_def DETAIL_ROOMS_SELECTORS_def
      ex_failing_view_def ascii_def)
  done

lemma ex_scrape_A:
  "scrape_card ex_card_A 1 ex_session =
     (Inr (Some ex_row_A),
      ex_session\<lparr>detail_page := (detail_page ex_session)\<lparr>visited := [ex_link]\<rparr>,
        detail_cache := (detail_cache ex_session)(ascii ''101'' \<mapsto> ex_rooms_only)\<rparr>)"
proof -
  have dc: "detail_cache ex_session (ascii ''101'') = None"
    by (simp add: ex_session_def)
  have r: "\<And>n. responses (detail_page ex_session) n ex_link = Inr ex_detail_view"
    "visited (detail_page ex_session) = []"
    by (simp_all add: ex_session_def)
  have "scrape_card ex_card_A 1 ex_session =
     (case cached_enrichment ex_session (ascii ''101'') ex_link (need_location ex_card_A)
             (need_rooms ex_card_A) of
        (Inl e, s') \<Rightarrow> (Inl e, s')
      | (Inr cached, s') \<Rightarrow>
          (let r = make_row (Some (ascii ''101'')) (extract_title ex_card_A)
                     (extract_price ex_card_A)
                     (backfill cached (need_location ex_card_A) (need_rooms ex_card_A)
                        (extract_location ex_card_A, card_sector ex_card_A, card_rooms ex_card_A))
                     (card_area ex_card_A) (Some ex_link) 1
           in (Inr (if retained r then Some r else None), s')))"
    using ex_A_fields(1) ex_ne(1) ex_lid(2) ex_lid(1) ex_needs(2)
    by (intro scrape_card_enrich) auto
  then show ?thesis
    using ex_ne
    by (simp add: ex_needs ex_A_fields cached_enrichment_miss [OF dc] r ex_try_block_rooms
        make_row_def backfill_def py_or_def dict_get_def retained_def truthy_def ex_row_A_def
        ex_rooms_only_def)
qed

subsection \<open>The session through the loops\<close>

lemma evolves_refl [simp]: "evolves s s"
  by (simp add: evolves_def)

lemma evolves_trans: "evolves s s' \<Longrightarrow> evolves s' s'' \<Longrightarrow> evolves s s''"
  by (simp add: evolves_def)

lemma evolves_page [simp]: "evolves s (s\<lparr>page := pg\<rparr>)"
  by (simp add: evolves_def fetch_inv_def)

lemma fetched_evolves:
  assumes "fetched s s'"
  shows "evolves s s'"
proof -
  from assms obtain link lid out where
    l: "lid_of link = Some lid" and n: "detail_cache s lid = None" and
    s': "s' = s\<lparr>detail_page := (detail_page s)\<lparr>visited := visited (detail_page s) @ [link]\<rparr>,
               detail_cache := (detail_cache s)(lid \<mapsto> out)\<rparr>"
    by (auto simp: fetched_def lid_of_def)
  have mono: "\<forall>k r. detail_cache s k = Some r \<longrightarrow> detail_cache s' k = Some r"
    using n s' by auto
  have "fetch_inv s'" if inv: "fetch_inv s"
  proof -
    have "lid_of link \<notin> set (map lid_of (visited (detail_page s)))"
    proof
      assume "lid_of link \<in> set (map lid_of (visited (detail_page s)))"
      then obtain x where x: "x \<in> set (visited (detail_page s))" "lid_of x = lid_of link"
        by auto
      from inv x(1) have "\<exists>k. lid_of x = Some k \<and> detail_cache s k \<noteq> None"
        unfolding fetch_inv_def by blast
      then obtain k where "lid_of x = Some k" "detail_cache s k \<noteq> None"
        by blast
      with x l n show False
        by simp
    qed
    with inv have d: "distinct (map lid_of (visited (detail_page s')))"
      by (simp add: s' fetch_inv_def)
    have "\<forall>x \<in> set (visited (detail_page s')).
        \<exists>k. lid_of x = Some k \<and> detail_cache s' k \<noteq> None"
    proof
      fix x
      assume "x \<in> set (visited (detail_page s'))"
      then have "x \<in> set (visited (detail_page s)) \<or> x = link"
        by (auto simp: s')
      then show "\<exists>k. lid_of x = Some k \<and> detail_cache s' k \<noteq> None"
      proof
        assume "x \<in> set (visited (detail_page s))"
        with inv have "\<exists>k. lid_of x = Some k \<and> detail_cache s k \<noteq> None"
          unfolding fetch_inv_def by blast
        with mono show ?thesis
          by fastforce
      next
        assume "x = link"
        with l show ?thesis
          by (auto simp: s')
      qed
    qed
    with d show ?thesis
      by (simp add: fetch_inv_def)
  qed
  with mono show ?thesis
    by (simp add: evolves_def)
qed

lemma scrape_card_evolves: "evolves s (snd (scrape_card c pn s))"
  using scrape_card_session [of c pn s] by (auto intro: fetched_evolves)

lemma scrape_cards_evolves: "evolves s (snd (scrape_cards cs pn rows s))"
proof (induction cs arbitrary: rows s)
  case Nil
  show ?case by simp
next
  case (Cons c cs)
  obtain ro s' where r: "scrape_card c pn s = (Inr ro, s')"
    using scrape_card_Inr [of c pn s] by (cases "scrape_card c pn s") auto
  have e: "evolves s s'"
    using scrape_card_evolves [of s c pn] r by simp
  show ?case
    using r evolves_trans [OF e Cons [where s = s']] by (cases ro) auto
qed

lemma scrape_cards_rows:
  assumes "fst (scrape_cards cs pn rows s) = Inr rows'" and "\<forall>r \<in> set rows. good_row r"
  shows "\<forall>r \<in> set rows'. good_row r"
  using assms
proof (induction cs arbitrary: rows s)
  case Nil
  then show ?case by simp
next
  case (Cons c cs)
  obtain ro s' where r: "scrape_card c pn s = (Inr ro, s')"
    using scrape_card_Inr [of c pn s] by (cases "scrape_card c pn s") auto
  show ?case
  proof (cases ro)
    case None
    with r Cons show ?thesis
      by auto
  next
    case (Some x)
    with r have f: "fst (scrape_card c pn s) = Inr (Some x)"
      by simp
    have "good_row x"
      using scrape_card_rowD [OF f] scrape_card_row_lid [OF f] by (auto simp: good_row_def)
    with Cons.prems(2) have "\<forall>r \<in> set (rows @ [x]). good_row r"
      by auto
    with Cons.IH [where rows = "rows @ [x]" and s = s'] Cons.prems(1) r Some show ?thesis
      by simp
  qed
qed

lemma scrape_page_evolves: "evolves s (snd (scrape_page s pn))"
proof -
  let ?s1 = "s\<lparr>page := snd (goto (page s) (START_URL pn))\<rparr>"
  have e1: "evolves s ?s1"
    by simp
  have "\<And>cs. evolves s (snd (scrape_cards cs pn [] ?s1))"
    by (rule evolves_trans [OF e1 scrape_cards_evolves])
  then show ?thesis
    unfolding scrape_page_def
    by (auto simp: Let_def case_prod_beta split: sum.splits option.splits exn.splits)
qed

lemma scrape_page_rows:
  assumes "fst (scrape_page s pn) = Inr rows"
  shows "\<forall>r \<in> set rows. good_row r"
proof -
  let ?s1 = "s\<lparr>page := snd (goto (page s) (START_URL pn))\<rparr>"
  have "\<And>cs rows'. fst (scrape_cards cs pn [] ?s1) = Inr rows' \<Longrightarrow> \<forall>r \<in> set rows'. good_row r"
    using scrape_cards_rows [where rows = "[]" and s = ?s1 and pn = pn] by simp
  with assms show ?thesis
    unfolding scrape_page_def
    by (auto simp: Let_def case_prod_beta split: sum.splits option.splits exn.splits if_splits)
qed

lemma retry_loop_evolves: "evolves s (fst (snd (retry_loop jitter s pn as)))"
proof (induction as arbitrary: s)
  case Nil
  show ?case by simp
next
  case (Cons a as)
  obtain r s' where r: "scrape_page s pn = (r, s')"
    by (cases "scrape_page s pn") auto
  have e: "evolves s s'"
    using scrape_page_evolves [of s pn] r by simp
  show ?case
  proof (cases r)
    case (Inl x)
    with r evolves_trans [OF e Cons [of s']] show ?thesis
      by (simp add: case_prod_beta Let_def)
  next
    case (Inr rows)
    with r e show ?thesis
      by simp
  qed
qed

lemma retry_loop_rows: "\<forall>r \<in> set (fst (retry_loop jitter s pn as)). good_row r"
proof (induction as arbitrary: s)
  case Nil
  show ?case by simp
next
  case (Cons a as)
  obtain r s' where r: "scrape_page s pn = (r, s')"
    by (cases "scrape_page s pn") auto
  show ?case
  proof (cases r)
    case (Inl x)
    with r Cons [of s'] show ?thesis
      by (simp add: case_prod_beta Let_def)
  next
    case (Inr rows)
    with r scrape_page_rows [of s pn rows] show ?thesis
      by simp
  qed
qed

lemma retry_loop_report:
  "\<exists>k \<le> length as.
     fst (snd (snd (retry_loop jitter s pn as))) = take k as \<and>
     snd (snd (snd (retry_loop jitter s pn as))) =
       map (\<lambda>a. 2 * real a + jitter pn a) (take k as) \<and>
     (k = length as \<longrightarrow> fst (retry_loop jitter s pn as) = [])"
proof (induction as arbitrary: s)
  case Nil
  show ?case by simp
next
  case (Cons a as)
  obtain r s' where r: "scrape_page s pn = (r, s')"
    by (cases "scrape_page s pn") auto
  show ?case
  proof (cases r)
    case (Inl x)
    from Cons [of s'] obtain k where k: "k \<le> length as"
      "fst (snd (snd (retry_loop jitter s' pn as))) = take k as"
      "snd (snd (snd (retry_loop jitter s' pn as))) =
         map (\<lambda>a. 2 * real a + jitter pn a) (take k as)"
      "k = length as \<longrightarrow> fst (retry_loop jitter s' pn as) = []"
      by blast
    with r Inl show ?thesis
      by (intro exI [of _ "Suc k"]) (simp add: case_prod_beta Let_def)
  next
    case (Inr rows)
    with r show ?thesis
      by (intro exI [of _ 0]) simp
  qed
qed

subsection \<open>The run\<close>

declare retry_loop.simps [simp del]

lemma set_dedup: "set (fst (dedup rs seen acc)) \<subseteq> set acc \<union> set rs"
proof (induction rs arbitrary: seen acc)
  case Nil
  show ?case by simp
next
  case (Cons r rs)
  show ?case
    using Cons [of seen acc] Cons [of "insert (the (listing_id r)) seen" "acc @ [r]"]
      Cons [of seen "acc @ [r]"]
    by (auto simp: Let_def)
qed

lemma keep_from_append:
  "keep_from e (xs @ ys) = keep_from e xs @ keep_from (e @ map listing_id xs) ys"
  by (induction xs arbitrary: e) auto

lemma dedup_keep_from:
  assumes "\<forall>r \<in> set rs. listing_id r \<noteq> Some []" and "seen = {l. Some l \<in> set earlier}"
  shows "dedup rs seen acc =
     (acc @ keep_from earlier rs, {l. Some l \<in> set (earlier @ map listing_id rs)})"
  using assms
proof (induction rs arbitrary: seen earlier acc)
  case Nil
  then show ?case by simp
next
  case (Cons r rs)
  from Cons.prems(1) have rs: "\<forall>r \<in> set rs. listing_id r \<noteq> Some []"
    by simp
  show ?case
  proof (cases "listing_id r")
    case None
    have "seen = {l. Some l \<in> set (earlier @ [None])}"
      using Cons.prems(2) by auto
    from Cons.IH [OF rs this, of "acc @ [r]"] None show ?thesis
      by (simp add: truthy_def)
  next
    case (Some l)
    with Cons.prems(1) have ne: "l \<noteq> []"
      by auto
    show ?thesis
    proof (cases "l \<in> seen")
      case True
      with Cons.prems(2) have "seen = {k. Some k \<in> set (earlier @ [Some l])}"
        by auto
      from Cons.IH [OF rs this, of acc] Some True ne Cons.prems(2) show ?thesis
        by (simp add: truthy_def)
    next
      case False
      have "insert l seen = {k. Some k \<in> set (earlier @ [Some l])}"
        using Cons.prems(2) by auto
      from Cons.IH [OF rs this, of "acc @ [r]"] Some False ne Cons.prems(2) show ?thesis
        by (simp add: truthy_def)
    qed
  qed
qed

lemma good_row_lid: "good_row r \<Longrightarrow> listing_id r \<noteq> Some []"
  by (auto simp: good_row_def)

lemma run_page_fields:
  "rs_session (run_page jitter st pn) = fst (snd (retry_loop jitter (rs_session st) pn [1, 2, 3]))"
  "output_csv (run_page jitter st pn) =
     output_csv st @ fst (dedup (fst (retry_loop jitter (rs_session st) pn [1, 2, 3])) (seen_ids st) [])"
  "seen_ids (run_page jitter st pn) =
     snd (dedup (fst (retry_loop jitter (rs_session st) pn [1, 2, 3])) (seen_ids st) [])"
  "reports (run_page jitter st pn) =
     reports st @
       [\<lparr>rp_page = pn,
         rp_failed = fst (snd (snd (retry_loop jitter (rs_session st) pn [1, 2, 3]))),
         rp_sleeps = snd (snd (snd (retry_loop jitter (rs_session st) pn [1, 2, 3]))),
         rp_rows = fst (retry_loop jitter (rs_session st) pn [1, 2, 3]),
         rp_added = length (fst (dedup (fst (retry_loop jitter (rs_session st) pn [1, 2, 3]))
                      (seen_ids st) []))\<rparr>]"
  by (simp_all add: run_page_def case_prod_beta Let_def append_rows_def)

lemma run_page_dedup_inv:
  assumes "dedup_inv st"
  shows "dedup_inv (run_page jitter st pn)"
proof -
  let ?rows = "fst (retry_loop jitter (rs_session st) pn [1, 2, 3])"
  let ?e = "map listing_id (produced st)"
  have g: "\<forall>r \<in> set ?rows. good_row r"
    by (rule retry_loop_rows)
  then have l: "\<forall>r \<in> set ?rows. listing_id r \<noteq> Some []"
    by (auto dest: good_row_lid)
  from assms have seen: "seen_ids st = {l. Some l \<in> set ?e}"
    by (simp add: dedup_inv_def)
  have d: "dedup ?rows (seen_ids st) [] =
      ([] @ keep_from ?e ?rows, {l. Some l \<in> set (?e @ map listing_id ?rows)})"
    using l seen by (rule dedup_keep_from)
  from d have d1: "fst (dedup ?rows (seen_ids st) []) = keep_from ?e ?rows"
    and d2: "snd (dedup ?rows (seen_ids st) []) = {l. Some l \<in> set (?e @ map listing_id ?rows)}"
    by simp_all
  have p: "produced (run_page jitter st pn) = produced st @ ?rows"
    by (simp add: produced_def run_page_fields)
  have out: "output_csv (run_page jitter st pn) = output_csv st @ keep_from ?e ?rows"
    by (simp only: run_page_fields d1)
  have "first_occurrences (produced (run_page jitter st pn)) =
      keep_from [] (produced st) @ keep_from ?e ?rows"
    by (simp only: p first_occurrences_def keep_from_append append_Nil)
  moreover from assms have "output_csv st = keep_from [] (produced st)"
    by (simp add: dedup_inv_def first_occurrences_def)
  ultimately have
    "output_csv (run_page jitter st pn) = first_occurrences (produced (run_page jitter st pn))"
    using out by simp
  moreover have "seen_ids (run_page jitter st pn) =
      {l. Some l \<in> set (map listing_id (produced (run_page jitter st pn)))}"
    by (simp only: run_page_fields d2 p map_append)
  moreover have "\<forall>r \<in> set (produced (run_page jitter st pn)). good_row r"
    using assms g by (auto simp: p dedup_inv_def)
  ultimately show ?thesis
    by (simp add: dedup_inv_def)
qed

lemma run_pages_dedup_inv: "dedup_inv st \<Longrightarrow> dedup_inv (run_pages jitter st pns)"
  unfolding run_pages_def by (induction pns arbitrary: st) (auto intro: run_page_dedup_inv)

lemma initial_dedup_inv: "dedup_inv (initial_state site detail_site)"
  by (simp add: dedup_inv_def initial_state_def produced_def first_occurrences_def)

lemma run_page_evolves: "evolves (rs_session st) (rs_session (run_page jitter st pn))"
  by (simp add: run_page_fields retry_loop_evolves)

lemma run_pages_evolves: "evolves (rs_session st) (rs_session (run_pages jitter st pns))"
  unfolding run_pages_def
proof (induction pns arbitrary: st)
  case Nil
  show ?case by simp
next
  case (Cons pn pns)
  show ?case
    using evolves_trans [OF run_page_evolves Cons [of "run_page jitter st pn"]] by simp
qed

lemma initial_fetch_inv: "fetch_inv (rs_session (initial_state site detail_site))"
  by (simp add: fetch_inv_def initial_state_def)

lemma run_pages_output:
  assumes "\<forall>r \<in> set (output_csv st). retained r"
  shows "\<forall>r \<in> set (output_csv (run_pages jitter st pns)). retained r"
  using assms unfolding run_pages_def
proof (induction pns arbitrary: st)
  case Nil
  then show ?case by simp
next
  case (Cons pn pns)
  let ?rows = "fst (retry_loop jitter (rs_session st) pn [1, 2, 3])"
  have "\<forall>r \<in> set ?rows. retained r"
    using retry_loop_rows [of jitter "rs_session st" pn "[1, 2, 3]"] by (auto simp: good_row_def)
  with set_dedup [of ?rows "seen_ids st" "[]"] Cons.prems
  have "\<forall>r \<in> set (output_csv (run_page jitter st pn)). retained r"
    by (auto simp: run_page_fields)
  from Cons.IH [OF this] show ?case
    by simp
qed

lemma length_dedup: "length (fst (dedup rs seen acc)) \<le> length acc + length rs"
proof (induction rs arbitrary: seen acc)
  case Nil
  show ?case by simp
next
  case (Cons r rs)
  show ?case
    using Cons [of seen acc] Cons [of "insert (the (listing_id r)) seen" "acc @ [r]"]
      Cons [of seen "acc @ [r]"]
    by (auto simp: Let_def)
qed

lemma run_page_report_ok:
  "\<exists>rp. reports (run_page jitter st pn) = reports st @ [rp] \<and> rp_page rp = pn \<and>
     report_ok jitter rp"
proof -
  obtain k where k: "k \<le> length [1, 2, 3 :: nat]"
    "fst (snd (snd (retry_loop jitter (rs_session st) pn [1, 2, 3]))) = take k [1, 2, 3]"
    "snd (snd (snd (retry_loop jitter (rs_session st) pn [1, 2, 3]))) =
       map (\<lambda>a. 2 * real a + jitter pn a) (take k [1, 2, 3])"
    "k = length [1, 2, 3 :: nat] \<longrightarrow> fst (retry_loop jitter (rs_session st) pn [1, 2, 3]) = []"
    using retry_loop_report [of "[1, 2, 3]" jitter "rs_session st" pn] by blast
  from k(1) have "k = 0 \<or> k = 1 \<or> k = 2 \<or> k = 3"
    by auto
  then show ?thesis
    using k(2-4) length_dedup [of "fst (retry_loop jitter (rs_session st) pn [1, 2, 3])"
        "seen_ids st" "[]"]
    by (auto simp: run_page_fields report_ok_def)
qed

lemma run_pages_reports:
  "\<exists>new. reports (run_pages jitter st pns) = reports st @ new \<and> map rp_page new = pns \<and>
     (\<forall>rp \<in> set new. report_ok jitter rp)"
  unfolding run_pages_def
proof (induction pns arbitrary: st)
  case Nil
  show ?case by simp
next
  case (Cons pn pns)
  obtain rp where rp: "reports (run_page jitter st pn) = reports st @ [rp]" "rp_page rp = pn"
    "report_ok jitter rp"
    using run_page_report_ok by blast
  from Cons [of "run_page jitter st pn"] obtain new where
    new: "reports (foldl (run_page jitter) (run_page jitter st pn) pns) =
        reports (run_page jitter st pn) @ new"
      "map rp_page new = pns" "\<forall>rp \<in> set new. report_ok jitter rp"
    by blast
  show ?case
    using rp new by (intro exI [of _ "rp # new"]) simp
qed


lemma scrape_link_only:
  assumes "detail_cache s (ascii ''101'') = None"
    and "\<And>n. responses (detail_page s) n ex_link = Inr ex_detail_view"
  shows "fst (scrape_card ex_card_link_only pn s) = Inr (Some (ex_row_link_only\<lparr>Page := pn\<rparr>))"
proof -
  have ct: "card_text ex_card_link_only = []"
    by (simp add: card_text_def ex_card_link_only_def clean_text_def)
  have nd: "need_location ex_card_link_only" "need_rooms ex_card_link_only"
    "card_sector ex_card_link_only = None" "card_rooms ex_card_link_only = None"
    "card_area ex_card_link_only = None"
    by (simp_all add: need_location_def need_rooms_def card_sector_def card_rooms_def
        card_area_def ct ex_link_only_fields extract_sector_def
        parse_rooms_area_from_text_def match_rooms_def match_area_def text_defs)
  have "scrape_card ex_card_link_only pn s =
     (case cached_enrichment s (ascii ''101'') ex_link (need_location ex_card_link_only)
             (need_rooms ex_card_link_only) of
        (Inl e, s') \<Rightarrow> (Inl e, s')
      | (Inr cached, s') \<Rightarrow>
          (let r = make_row (Some (ascii ''101'')) (extract_title ex_card_link_only)
                     (extract_price ex_card_link_only)
                     (backfill cached (need_location ex_card_link_only)
                        (need_rooms ex_card_link_only)
                        (extract_location ex_card_link_only, card_sector ex_card_link_only,
                         card_rooms ex_card_link_only))
                     (card_area ex_card_link_only) (Some ex_link) pn
           in (Inr (if retained r then Some r else None), s')))"
    using ex_link_only_fields(1) ex_ne(1) ex_lid(2) ex_lid(1) nd(1)
    by (intro scrape_card_enrich) auto
  then show ?thesis
    using ex_ne
    by (simp add: nd ex_link_only_fields cached_enrichment_miss [OF assms(1)] assms(2)
        ex_try_block_loc make_row_def backfill_def py_or_def dict_get_def retained_def
        truthy_def ex_row_link_only_def)
qed

lemma ex_scrape_page:
  "fst (scrape_page ex_session_page 1) = Inr [ex_row_link_only]"
proof -
  let ?s1 = "ex_session_page\<lparr>page := (page ex_session_page)\<lparr>visited := [START_URL 1]\<rparr>\<rparr>"
  have c: "get_listing_cards ex_results_view = [ex_card_link_only]"
    by (simp add: get_listing_cards_def ex_results_view_def)
  have "fst (scrape_card ex_card_link_only 1 ?s1) = Inr (Some (ex_row_link_only\<lparr>Page := 1\<rparr>))"
    by (rule scrape_link_only) (simp_all add: ex_session_page_def)
  then have "fst (scrape_card ex_card_link_only 1 ?s1) = Inr (Some ex_row_link_only)"
    by (simp add: ex_row_link_only_def)
  then have "fst (scrape_cards [ex_card_link_only] 1 [] ?s1) = Inr [ex_row_link_only]"
    by (cases "scrape_card ex_card_link_only 1 ?s1") auto
  moreover have "goto (page ex_session_page) (START_URL 1) =
      (Inr ex_results_view, (page ex_session_page)\<lparr>visited := [START_URL 1]\<rparr>)"
    by (simp add: goto_def ex_session_page_def)
  ultimately show ?thesis
    using c
    by (cases "scrape_cards [ex_card_link_only] (Suc 0) []
          (ex_session_page\<lparr>page := page ex_session_page\<lparr>visited := [START_URL (Suc 0)]\<rparr>\<rparr>)")
      (simp add: scrape_page_def ex_results_view_def)
qed

lemma scrape_page_nav_fails:
  assumes "responses (page s) = (\<lambda>_ _. Inl e)"
  shows "fst (scrape_page s pn) = Inl e"
    and "responses (page (snd (scrape_page s pn))) = (\<lambda>_ _. Inl e)"
    and "detail_page (snd (scrape_page s pn)) = detail_page s"
  using assms by (simp_all add: scrape_page_def goto_def)


lemma link_only_row:
  assumes "fst (scrape_card c pn s) = Inr (Some r)"
    and "extract_title c = None" "extract_price c = None" "extract_location c = None"
  shows "\<exists>link lid cached. extract_listing_link c = Some link \<and> lid_of link = Some lid \<and>
     detail_cache (snd (scrape_card c pn s)) lid = Some cached \<and>
     Location_Info r = dict_get d_Location_Info cached \<and> truthy (Location_Info r)"
proof -
  from scrape_card_rowD [OF assms(1)] obtain link triple where
    l: "extract_listing_link c = Some link" and ret: "retained r" and
    r: "r = make_row (lid_of link) (extract_title c) (extract_price c) triple (card_area c)
           (Some link) pn" and
    t: "triple = (extract_location c, card_sector c, card_rooms c) \<or>
      (\<exists>cached. triple = backfill cached (need_location c) (need_rooms c)
                   (extract_location c, card_sector c, card_rooms c) \<and>
         (need_location c \<or> need_rooms c) \<and> truthy (lid_of link) \<and>
         detail_cache (snd (scrape_card c pn s)) (the (lid_of link)) = Some cached)"
    by blast
  have nl: "need_location c"
    using assms(4) by (simp add: need_location_def)
  from t show ?thesis
  proof
    assume "triple = (extract_location c, card_sector c, card_rooms c)"
    with r ret assms(2-4) show ?thesis
      by (simp add: make_row_def retained_def truthy_def)
  next
    assume "\<exists>cached. triple = backfill cached (need_location c) (need_rooms c)
                   (extract_location c, card_sector c, card_rooms c) \<and>
         (need_location c \<or> need_rooms c) \<and> truthy (lid_of link) \<and>
         detail_cache (snd (scrape_card c pn s)) (the (lid_of link)) = Some cached"
    then obtain cached where c: "triple = backfill cached (need_location c) (need_rooms c)
                   (extract_location c, card_sector c, card_rooms c)"
      "truthy (lid_of link)"
      "detail_cache (snd (scrape_card c pn s)) (the (lid_of link)) = Some cached"
      by blast
    from c(2) obtain lid where lid: "lid_of link = Some lid"
      by (auto dest: truthyD)
    from r c(1) nl assms(4) have loc: "Location_Info r = dict_get d_Location_Info cached"
      by (simp add: make_row_def backfill_def py_or_def truthy_def)
    from r ret assms(2,3) have "truthy (Location_Info r)"
      by (cases triple) (simp add: make_row_def retained_def truthy_def)
    with l lid c(3) loc show ?thesis
      by auto
  qed
qed

subsection \<open>The reports of a run and the retry loop\<close>

lemma retry_loop_three:
  "retry_loop jitter s pn [1, 2, 3] =
     (let s1 = snd (scrape_page s pn);
          s2 = snd (scrape_page s1 pn);
          s3 = snd (scrape_page s2 pn)
      in case fst (scrape_page s pn) of
           Inr rows \<Rightarrow> (rows, s1, [], [])
         | Inl e1 \<Rightarrow>
             (case fst (scrape_page s1 pn) of
                Inr rows \<Rightarrow> (rows, s2, [1], [2 + jitter pn 1])
              | Inl e2 \<Rightarrow>
                  (case fst (scrape_page s2 pn) of
                     Inr rows \<Rightarrow> (rows, s3, [1, 2], [2 + jitter pn 1, 4 + jitter pn 2])
                   | Inl e3 \<Rightarrow>
                       ([], s3, [1, 2, 3],
                        [2 + jitter pn 1, 4 + jitter pn 2, 6 + jitter pn 3]))))"
proof -
  obtain r1 s1 where a: "scrape_page s pn = (r1, s1)"
    by (cases "scrape_page s pn") auto
  obtain r2 s2 where b: "scrape_page s1 pn = (r2, s2)"
    by (cases "scrape_page s1 pn") auto
  obtain r3 s3 where c: "scrape_page s2 pn = (r3, s3)"
    by (cases "scrape_page s2 pn") auto
  show ?thesis
    by (cases r1; cases r2; cases r3) (simp_all add: retry_loop.simps a b c Let_def)
qed

lemma run_pages_simps:
  "run_pages jitter st [] = st"
  "run_pages jitter st (pn # pns) = run_pages jitter (run_page jitter st pn) pns"
  "run_pages jitter st (pns @ qs) = run_pages jitter (run_pages jitter st pns) qs"
  by (simp_all add: run_pages_def)

lemma length_reports_run_pages:
  "length (reports (run_pages jitter st pns)) = length (reports st) + length pns"
proof -
  obtain new where "reports (run_pages jitter st pns) = reports st @ new" "map rp_page new = pns"
    using run_pages_reports [of jitter st pns] by blast
  then show ?thesis
    by (metis length_append length_map)
qed

lemma run_pages_report_nth:
  assumes "i < length pns"
  shows "reports (run_pages jitter st pns) ! (length (reports st) + i) =
     last (reports (run_page jitter (run_pages jitter st (take i pns)) (pns ! i)))"
proof -
  let ?sti = "run_pages jitter st (take i pns)"
  from assms have pns: "pns = take i pns @ (pns ! i) # drop (Suc i) pns"
    by (simp add: id_take_nth_drop)
  have "run_pages jitter st pns =
      run_pages jitter (run_page jitter ?sti (pns ! i)) (drop (Suc i) pns)"
    by (subst pns) (simp only: run_pages_simps)
  moreover obtain new where
    "reports (run_pages jitter (run_page jitter ?sti (pns ! i)) (drop (Suc i) pns)) =
       reports (run_page jitter ?sti (pns ! i)) @ new"
    using run_pages_reports by blast
  ultimately have r: "reports (run_pages jitter st pns) =
      reports (run_page jitter ?sti (pns ! i)) @ new"
    by simp
  obtain rp where rp: "reports (run_page jitter ?sti (pns ! i)) = reports ?sti @ [rp]"
    using run_page_report_ok by blast
  have l: "length (reports ?sti) = length (reports st) + i"
    using assms by (simp add: length_reports_run_pages)
  from r rp l show ?thesis
    by (simp add: nth_append)
qed

lemma scrape_page_renders:
  assumes "responses (page s) (length (visited (page s))) (START_URL pn) = Inr ex_results_view"
    and "detail_cache s (ascii ''101'') = None"
    and "\<And>n. responses (detail_page s) n ex_link = Inr ex_detail_view"
  shows "fst (scrape_page s pn) = Inr [ex_row_link_only\<lparr>Page := pn\<rparr>]"
proof -
  let ?s1 = "s\<lparr>page := (page s)\<lparr>visited := visited (page s) @ [START_URL pn]\<rparr>\<rparr>"
  have c: "get_listing_cards ex_results_view = [ex_card_link_only]"
    by (simp add: get_listing_cards_def ex_results_view_def)
  have "fst (scrape_card ex_card_link_only pn ?s1) = Inr (Some (ex_row_link_only\<lparr>Page := pn\<rparr>))"
    by (rule scrape_link_only) (simp_all add: assms)
  then have "fst (scrape_cards [ex_card_link_only] pn [] ?s1) = Inr [ex_row_link_only\<lparr>Page := pn\<rparr>]"
    by (cases "scrape_card ex_card_link_only pn ?s1") auto
  moreover have "goto (page s) (START_URL pn) =
      (Inr ex_results_view, (page s)\<lparr>visited := visited (page s) @ [START_URL pn]\<rparr>)"
    by (simp add: goto_def assms(1))
  ultimately show ?thesis
    using c
    by (cases "scrape_cards [ex_card_link_only] pn [] ?s1")
      (simp add: scrape_page_def ex_results_view_def)
qed

lemma ex_retry_first_fails:
  "fst (scrape_page ex_session_retry 1) = Inl PlaywrightTimeoutError"
  "fst (scrape_page (snd (scrape_page ex_session_retry 1)) 1) = Inr [ex_row_link_only]"
proof -
  show a: "fst (scrape_page ex_session_retry 1) = Inl PlaywrightTimeoutError"
    by (simp add: scrape_page_def goto_def ex_session_retry_def)
  have s1: "snd (scrape_page ex_session_retry 1) =
      ex_session_retry\<lparr>page := (page ex_session_retry)\<lparr>visited := [START_URL 1]\<rparr>\<rparr>"
    by (simp add: scrape_page_def goto_def ex_session_retry_def)
  have "fst (scrape_page (snd (scrape_page ex_session_retry 1)) 1) =
      Inr [ex_row_link_only\<lparr>Page := 1\<rparr>]"
    unfolding s1 by (rule scrape_page_renders) (simp_all add: ex_session_retry_def)
  then show "fst (scrape_page (snd (scrape_page ex_session_retry 1)) 1) = Inr [ex_row_link_only]"
    by (simp add: ex_row_link_only_def)
qed

section \<open>The claims\<close>

text \<open>
  Claim C7. For every input, \<open>clean_text\<close> is idempotent and never returns an empty
  string: its result is either absent or a non-empty string that neither starts nor ends
  with whitespace, in which every whitespace character is a space and no two whitespace
  characters are adjacent.
\<close>

theorem clean_text_idempotent_normal:
  "clean_text (clean_text x) = clean_text x \<and>
   clean_text x \<noteq> Some [] \<and>
   (\<forall>r. clean_text x = Some r \<longrightarrow>
      r \<noteq> [] \<and> \<not> isspace (hd r) \<and> \<not> isspace (last r) \<and>
      (\<forall>c \<in> set r. isspace c \<longrightarrow> c = 32) \<and>
      (\<forall>i. Suc i < length r \<longrightarrow> \<not> (isspace (r ! i) \<and> isspace (r ! Suc i))))"
proof (intro conjI allI impI)
  show "clean_text (clean_text x) = clean_text x"
    by (cases "clean_text x") (simp_all add: clean_text_fixed)
  show "clean_text x \<noteq> Some []"
    using clean_text_SomeD(1) [of x "[]"] by auto
next
  fix r
  assume r: "clean_text x = Some r"
  note d = clean_text_SomeD [OF r]
  show "r \<noteq> []" "\<not> isspace (hd r)" "\<not> isspace (last r)"
    by (rule d)+
  show "\<forall>c \<in> set r. isspace c \<longrightarrow> c = 32"
    using d(4) by (auto dest: single_spaced_space)
  fix i
  assume "Suc i < length r"
  with d(4) show "\<not> (isspace (r ! i) \<and> isspace (r ! Suc i))"
    by (rule single_spaced_nth)
qed


theorem clean_text_idempotent_normal_witness:
  "clean_text (Some [32, 9, 97, 32, 10, 32, 98, 32]) = Some [97, 32, 98] \<and>
   clean_text (clean_text (Some [32, 9, 97, 32, 10, 32, 98, 32])) =
     clean_text (Some [32, 9, 97, 32, 10, 32, 98, 32]) \<and>
   \<not> isspace (hd [97, 32, 98]) \<and> \<not> isspace (last [97, 32, 98])"
  using clean_text_idempotent_normal [of "Some [32, 9, 97, 32, 10, 32, 98, 32]"]
  by (simp add: clean_text_def strip_def isspace_def)

text \<open>
  Claim C5, as the code has it. \<open>listing_id_from_link\<close> returns absent exactly when the
  link is absent or empty. Otherwise it tries, in order: (a) the first place in the link
  where a hyphen is followed by one or more digits and then \<open>.html\<close> (anywhere in the
  link, and only after a hyphen), returning those digits; (b) the first place where \<open>?\<close>
  or \<open>&\<close> is followed by \<open>id=\<close> and digits, returning the digits; (c) the text after the
  last slash of the link without its trailing slashes, cut to 80 characters. The three
  examples of the claim hold.
\<close>

theorem listing_id_from_link_order:
  "(listing_id_from_link link = None \<longleftrightarrow> link = None \<or> link = Some []) \<and>
   (re_search match_html_id l = None \<longleftrightarrow>
      \<not> (\<exists>pre d post. l = pre @ 45 # d @ ascii ''.html'' @ post \<and> d \<noteq> [] \<and>
            (\<forall>c \<in> set d. isdigit c))) \<and>
   (re_search match_query_id l = None \<longleftrightarrow>
      \<not> (\<exists>pre q d post. (q = 63 \<or> q = 38) \<and> l = pre @ q # ascii ''id='' @ d @ post \<and>
            d \<noteq> [] \<and> (\<forall>c \<in> set d. isdigit c))) \<and>
   (\<forall>d. re_search match_html_id l = Some d \<longrightarrow>
      listing_id_from_link (Some l) = Some d \<and> d \<noteq> [] \<and> (\<forall>c \<in> set d. isdigit c) \<and>
      (\<exists>pre post. l = pre @ 45 # d @ ascii ''.html'' @ post)) \<and>
   (\<forall>d. re_search match_html_id l = None \<and> re_search match_query_id l = Some d \<longrightarrow>
      listing_id_from_link (Some l) = Some d \<and> d \<noteq> [] \<and> (\<forall>c \<in> set d. isdigit c) \<and>
      (\<exists>pre q post. (q = 63 \<or> q = 38) \<and> l = pre @ q # ascii ''id='' @ d @ post)) \<and>
   (l \<noteq> [] \<and> re_search match_html_id l = None \<and> re_search match_query_id l = None \<longrightarrow>
      (\<exists>t seg n. listing_id_from_link (Some l) = Some (take 80 seg) \<and>
         l = t @ replicate n 47 \<and> (t = [] \<or> last t \<noteq> 47) \<and>
         47 \<notin> set seg \<and> (t = seg \<or> (\<exists>a. t = a @ 47 # seg)))) \<and>
   listing_id_from_link (Some (ascii ''https://x/.../apartment-123456.html'')) =
     Some (ascii ''123456'') \<and>
   listing_id_from_link (Some (ascii ''https://x/path?id=789'')) = Some (ascii ''789'') \<and>
   listing_id_from_link (Some (ascii ''https://x/a/b/c'')) = Some (ascii ''c'')"
proof (intro conjI allI impI)
  show "listing_id_from_link link = None \<longleftrightarrow> link = None \<or> link = Some []"
    by (auto simp: listing_id_from_link_def split: option.splits)
  show "re_search match_html_id l = None \<longleftrightarrow>
      \<not> (\<exists>pre d post. l = pre @ 45 # d @ ascii ''.html'' @ post \<and> d \<noteq> [] \<and>
            (\<forall>c \<in> set d. isdigit c))"
    by (rule html_id_occurs_iff)
  show "re_search match_query_id l = None \<longleftrightarrow>
      \<not> (\<exists>pre q d post. (q = 63 \<or> q = 38) \<and> l = pre @ q # ascii ''id='' @ d @ post \<and>
            d \<noteq> [] \<and> (\<forall>c \<in> set d. isdigit c))"
    by (rule query_id_occurs_iff)
next
  fix d
  assume a: "re_search match_html_id l = Some d"
  then have "l \<noteq> []"
    by auto
  with a show "listing_id_from_link (Some l) = Some d"
    by (simp add: listing_id_from_link_def)
  from html_id_found [OF a]
  show "d \<noteq> []" "\<forall>c \<in> set d. isdigit c"
    "\<exists>pre post. l = pre @ 45 # d @ ascii ''.html'' @ post"
    by blast+
next
  fix d
  assume a: "re_search match_html_id l = None \<and> re_search match_query_id l = Some d"
  then have "l \<noteq> []"
    by auto
  with a show "listing_id_from_link (Some l) = Some d"
    by (simp add: listing_id_from_link_def)
  from a have b: "re_search match_query_id l = Some d"
    by simp
  from query_id_found [OF b]
  show "d \<noteq> []" "\<forall>c \<in> set d. isdigit c"
    "\<exists>pre q post. (q = 63 \<or> q = 38) \<and> l = pre @ q # ascii ''id='' @ d @ post"
    by blast+
next
  assume a: "l \<noteq> [] \<and> re_search match_html_id l = None \<and> re_search match_query_id l = None"
  let ?t = "rstrip_char 47 l"
  from a have r: "listing_id_from_link (Some l) = Some (take 80 (last (split_on 47 ?t)))"
    by (simp add: listing_id_from_link_def)
  obtain seg where s: "last (split_on 47 ?t) = seg" "47 \<notin> set seg"
      "?t = seg \<or> (\<exists>a. ?t = a @ 47 # seg)"
    using last_split_on [of 47 ?t] by blast
  obtain n where n: "?t = [] \<or> last ?t \<noteq> 47" "l = ?t @ replicate n 47"
    using rstrip_char_props [of 47 l] by blast
  from r s n show "\<exists>t seg n. listing_id_from_link (Some l) = Some (take 80 seg) \<and>
         l = t @ replicate n 47 \<and> (t = [] \<or> last t \<noteq> 47) \<and>
         47 \<notin> set seg \<and> (t = seg \<or> (\<exists>a. t = a @ 47 # seg))"
    by blast
next
  show "listing_id_from_link (Some (ascii ''https://x/.../apartment-123456.html'')) =
     Some (ascii ''123456'')"
    by (simp add: listing_id_from_link_def ascii_def match_html_id_def isdigit_def
        starts_with_def)
  show "listing_id_from_link (Some (ascii ''https://x/path?id=789'')) = Some (ascii ''789'')"
    by (simp add: listing_id_from_link_def ascii_def match_html_id_def match_query_id_def
        isdigit_def starts_with_def)
  show "listing_id_from_link (Some (ascii ''https://x/a/b/c'')) = Some (ascii ''c'')"
    by (simp add: listing_id_from_link_def ascii_def match_html_id_def match_query_id_def
        isdigit_def starts_with_def rstrip_char_def)
qed

theorem listing_id_from_link_order_witness:
  "listing_id_from_link (Some (ascii ''https://x/ap-12.html'')) = Some (ascii ''12'') \<and>
   listing_id_from_link (Some (ascii ''https://x/p?id=7'')) = Some (ascii ''7'') \<and>
   (\<exists>seg. listing_id_from_link (Some (ascii ''https://x/a/b/c'')) = Some (take 80 seg) \<and>
      47 \<notin> set seg)"
proof -
  have a: "re_search match_html_id (ascii ''https://x/ap-12.html'') = Some (ascii ''12'')"
    by (simp add: ascii_def match_html_id_def isdigit_def starts_with_def)
  have b: "re_search match_html_id (ascii ''https://x/p?id=7'') = None \<and>
      re_search match_query_id (ascii ''https://x/p?id=7'') = Some (ascii ''7'')"
    by (simp add: ascii_def match_html_id_def match_query_id_def isdigit_def starts_with_def)
  have c: "ascii ''https://x/a/b/c'' \<noteq> [] \<and>
      re_search match_html_id (ascii ''https://x/a/b/c'') = None \<and>
      re_search match_query_id (ascii ''https://x/a/b/c'') = None"
    by (simp add: ascii_def match_html_id_def match_query_id_def isdigit_def starts_with_def)
  from a listing_id_from_link_order [of None "ascii ''https://x/ap-12.html''"]
  have "listing_id_from_link (Some (ascii ''https://x/ap-12.html'')) = Some (ascii ''12'')"
    by blast
  moreover from b listing_id_from_link_order [of None "ascii ''https://x/p?id=7''"]
  have "listing_id_from_link (Some (ascii ''https://x/p?id=7'')) = Some (ascii ''7'')"
    by blast
  moreover from c listing_id_from_link_order [of None "ascii ''https://x/a/b/c''"]
  have "\<exists>seg. listing_id_from_link (Some (ascii ''https://x/a/b/c'')) = Some (take 80 seg) \<and>
      47 \<notin> set seg"
    by blast
  ultimately show ?thesis
    by blast
qed

text \<open>
  The claim as stated fails twice: an empty link, which is not absent, gives absent; and a
  numeric id right before the final \<open>.html\<close> is not returned when no hyphen precedes it.
\<close>

theorem listing_id_from_link_counterexample:
  "listing_id_from_link (Some []) = None \<and>
   listing_id_from_link (Some (ascii ''https://x/123456.html'')) = Some (ascii ''123456.html'')"
  by (simp add: listing_id_from_link_def ascii_def match_html_id_def match_query_id_def
      isdigit_def starts_with_def rstrip_char_def)

text \<open>
  Claim C2. For every card, each of the three extractors is the resolver of the
  specification on its chain with its minimum length (title 3, location 2, price 1; the
  title chain ends with the attribute locator on the first anchor). The resolver returns
  the normalized text of the first locator of the chain whose match meets the minimum
  length, and absent exactly when no locator of the chain does; it is a total function, so
  nothing is raised. With three locators of which the first is not accepted and the
  second is, the second's text is returned.
\<close>

theorem selector_fallback_first_accepted:
  "extract_title c = resolve c title_chain 3 \<and>
   extract_location c = resolve c location_chain 2 \<and>
   extract_price c = resolve c price_chain 1 \<and>
   (resolve c chain n = Some t \<longleftrightarrow>
      (\<exists>i < length chain. accepted c (chain ! i) n = Some t \<and>
         (\<forall>j < i. accepted c (chain ! j) n = None))) \<and>
   (resolve c chain n = None \<longleftrightarrow> (\<forall>i < length chain. accepted c (chain ! i) n = None)) \<and>
   (accepted c l1 n = None \<and> accepted c l2 n = Some t \<longrightarrow> resolve c [l1, l2, l3] n = Some t)"
proof (intro conjI impI)
  show "extract_title c = resolve c title_chain 3"
    by (rule extract_title_resolve)
  show "extract_location c = resolve c location_chain 2"
    by (simp add: extract_location_def location_chain_def selector_loop_resolve)
  show "extract_price c = resolve c price_chain 1"
    by (simp add: extract_price_def price_chain_def selector_loop_resolve)
  show "resolve c chain n = Some t \<longleftrightarrow>
      (\<exists>i < length chain. accepted c (chain ! i) n = Some t \<and>
         (\<forall>j < i. accepted c (chain ! j) n = None))"
    by (rule resolve_Some_iff)
  show "resolve c chain n = None \<longleftrightarrow> (\<forall>i < length chain. accepted c (chain ! i) n = None)"
    by (rule resolve_None_iff)
next
  assume "accepted c l1 n = None \<and> accepted c l2 n = Some t"
  then show "resolve c [l1, l2, l3] n = Some t"
    by simp
qed

theorem selector_fallback_first_accepted_witness:
  "accepted \<lparr>query_selector_all = (\<lambda>s. if s = ascii ''h2''
        then [\<lparr>inner_text = ascii '' Nice   flat'', get_attribute = (\<lambda>_. None)\<rparr>] else []),
      card_inner_text = []\<rparr> (Text (ascii ''[data-cy*='title']'')) 3 = None \<and>
   accepted \<lparr>query_selector_all = (\<lambda>s. if s = ascii ''h2''
        then [\<lparr>inner_text = ascii '' Nice   flat'', get_attribute = (\<lambda>_. None)\<rparr>] else []),
      card_inner_text = []\<rparr> (Text (ascii ''h2'')) 3 = Some (ascii ''Nice flat'') \<and>
   resolve \<lparr>query_selector_all = (\<lambda>s. if s = ascii ''h2''
        then [\<lparr>inner_text = ascii '' Nice   flat'', get_attribute = (\<lambda>_. None)\<rparr>] else []),
      card_inner_text = []\<rparr>
     [Text (ascii ''[data-cy*='title']''), Text (ascii ''h2''), Text (ascii ''h3'')] 3 =
     Some (ascii ''Nice flat'')"
proof -
  let ?c = "\<lparr>query_selector_all = (\<lambda>s. if s = ascii ''h2''
        then [\<lparr>inner_text = ascii '' Nice   flat'', get_attribute = (\<lambda>_. None)\<rparr>] else []),
      card_inner_text = []\<rparr>"
  have a: "accepted ?c (Text (ascii ''[data-cy*='title']'')) 3 = None \<and>
      accepted ?c (Text (ascii ''h2'')) 3 = Some (ascii ''Nice flat'')"
    by (simp add: accepted_def query_selector_def clean_text_def strip_def isspace_def ascii_def)
  with selector_fallback_first_accepted [of ?c "[]" 3 "ascii ''Nice flat''"
      "Text (ascii ''[data-cy*='title']'')" "Text (ascii ''h2'')" "Text (ascii ''h3'')"]
  show ?thesis
    by blast
qed

text \<open>
  Claim C6. Every failure inside a detail enrichment is absorbed by the call: whatever the
  navigation or a later read raises, \<open>enrich_from_detail\<close> returns the dict as it stood
  when the \<open>try\<close> block was left (empty when the navigation or the location step failed,
  the location part when the rooms step failed), so the loop body and the loop over the
  cards, which call it, never raise.
\<close>

theorem enrich_from_detail_absorbs_failures:
  "fst (enrich_from_detail dp link nl nr) = Inr (fst (try_block (fst (goto dp link)) nl nr)) \<and>
   try_block (Inl e) nl nr = (empty_dict, Some e) \<and>
   (location_step v nl empty_dict = Inl e \<longrightarrow>
      try_block (Inr v) nl nr = (empty_dict, Some e)) \<and>
   (location_step v nl empty_dict = Inr out1 \<and> rooms_step v nr out1 = Inl e \<longrightarrow>
      try_block (Inr v) nl nr = (out1, Some e)) \<and>
   (location_step v nl empty_dict = Inr out1 \<and> rooms_step v nr out1 = Inr out2 \<longrightarrow>
      try_block (Inr v) nl nr = (out2, None)) \<and>
   (\<exists>ro. fst (scrape_card c pn s) = Inr ro) \<and>
   (\<exists>rows'. fst (scrape_cards cs pn rows s) = Inr rows')"
proof (intro conjI impI)
  show "fst (enrich_from_detail dp link nl nr) =
      Inr (fst (try_block (fst (goto dp link)) nl nr))"
    by (simp add: enrich_from_detail_eq)
  show "try_block (Inl e) nl nr = (empty_dict, Some e)"
    by (simp add: try_block_def)
  show "\<exists>ro. fst (scrape_card c pn s) = Inr ro"
    by (rule scrape_card_Inr)
  show "\<exists>rows'. fst (scrape_cards cs pn rows s) = Inr rows'"
    by (rule scrape_cards_Inr)
next
  assume "location_step v nl empty_dict = Inl e"
  then show "try_block (Inr v) nl nr = (empty_dict, Some e)"
    by (simp add: try_block_def)
next
  assume "location_step v nl empty_dict = Inr out1 \<and> rooms_step v nr out1 = Inl e"
  then show "try_block (Inr v) nl nr = (out1, Some e)"
    by (simp add: try_block_def)
next
  assume "location_step v nl empty_dict = Inr out1 \<and> rooms_step v nr out1 = Inr out2"
  then show "try_block (Inr v) nl nr = (out2, None)"
    by (simp add: try_block_def)
qed

theorem enrich_from_detail_absorbs_failures_witness:
  "fst (enrich_from_detail \<lparr>responses = (\<lambda>_ _. Inl PlaywrightTimeoutError), visited = []\<rparr>
          ex_link True True) = Inr empty_dict \<and>
   try_block (Inr ex_failing_view) True True =
     (\<lparr>d_Location_Info = Some (Some (ascii ''Sector 3'')), d_Sector = Some (Some (ascii ''3'')),
       d_Room_Number = None\<rparr>, Some OtherException)"
proof -
  let ?dp = "\<lparr>responses = (\<lambda>_ _. Inl PlaywrightTimeoutError), visited = []\<rparr> :: detail_view tab"
  let ?out1 = "\<lparr>d_Location_Info = Some (Some (ascii ''Sector 3'')),
      d_Sector = Some (Some (ascii ''3'')), d_Room_Number = None\<rparr>"
  have g: "fst (goto ?dp ex_link) = Inl PlaywrightTimeoutError"
    by simp
  from enrich_from_detail_absorbs_failures
    [where dp = ?dp and link = ex_link and nl = True and nr = True
       and e = PlaywrightTimeoutError]
  have "fst (enrich_from_detail ?dp ex_link True True) = Inr empty_dict"
    unfolding g by simp
  moreover
  have "location_step ex_failing_view True empty_dict = Inr ?out1 \<and>
      rooms_step ex_failing_view True ?out1 = Inl OtherException"
    by (simp add: ex_failing_steps)
  with enrich_from_detail_absorbs_failures
    [where nl = True and nr = True and e = OtherException and v = ex_failing_view
       and ?out1.0 = ?out1]
  have "try_block (Inr ex_failing_view) True True = (?out1, Some OtherException)"
    by blast
  ultimately show ?thesis
    by blast
qed

text \<open>
  Claim C9. In every row a card produces, title, price, area, link, listing id and page
  are the values extracted from the card, whatever the enrichment returned; and location,
  sector and room count are the card's own values whenever the card had them: the backfill
  writes only into fields that were absent.
\<close>

theorem enrichment_fills_only_absent_fields:
  "(fst (scrape_card c pn s) = Inr (Some r) \<longrightarrow>
      Property_Title r = extract_title c \<and> Price_Raw r = extract_price c \<and>
      Area_m2 r = card_area c \<and> Link r = extract_listing_link c \<and>
      listing_id r = listing_id_from_link (extract_listing_link c) \<and> Page r = pn \<and>
      (extract_location c \<noteq> None \<longrightarrow> Location_Info r = extract_location c) \<and>
      (card_sector c \<noteq> None \<longrightarrow> Sector r = card_sector c) \<and>
      (card_rooms c \<noteq> None \<longrightarrow> Room_Number r = card_rooms c)) \<and>
   (backfill cached nl nr (loc, sec, rooms) = (loc', sec', rooms') \<longrightarrow>
      (truthy loc \<longrightarrow> loc' = loc) \<and> (truthy sec \<longrightarrow> sec' = sec) \<and>
      (rooms \<noteq> None \<longrightarrow> rooms' = rooms))"
proof (intro conjI impI)
  assume a: "fst (scrape_card c pn s) = Inr (Some r)"
  from scrape_card_rowD [OF a] obtain link triple where
    l: "extract_listing_link c = Some link" and
    r: "r = make_row (lid_of link) (extract_title c) (extract_price c) triple (card_area c)
           (Some link) pn" and
    t: "triple = (extract_location c, card_sector c, card_rooms c) \<or>
      (\<exists>cached. triple = backfill cached (need_location c) (need_rooms c)
                   (extract_location c, card_sector c, card_rooms c))"
    by blast
  obtain loc' sec' rooms' where tr: "triple = (loc', sec', rooms')"
    by (cases triple) auto
  from r tr l show "Property_Title r = extract_title c" "Price_Raw r = extract_price c"
    "Area_m2 r = card_area c" "Link r = extract_listing_link c"
    "listing_id r = listing_id_from_link (extract_listing_link c)" "Page r = pn"
    by (simp_all add: make_row_def lid_of_def)
  {
    assume "extract_location c \<noteq> None"
    then have "truthy (extract_location c)"
      by (simp add: truthy_iff_Some)
    with t tr have "loc' = extract_location c"
      by (auto dest: backfill_keeps(1) [OF sym])
    with r tr show "Location_Info r = extract_location c"
      by (simp add: make_row_def)
  }
  {
    assume "card_sector c \<noteq> None"
    then have "truthy (card_sector c)"
      by (simp add: truthy_iff_Some card_sector_def)
    with t tr have "sec' = card_sector c"
      by (auto dest: backfill_keeps(2) [OF sym])
    with r tr show "Sector r = card_sector c"
      by (simp add: make_row_def)
  }
  {
    assume "card_rooms c \<noteq> None"
    with t tr have "rooms' = card_rooms c"
      by (auto dest: backfill_keeps(3) [OF sym])
    with r tr show "Room_Number r = card_rooms c"
      by (simp add: make_row_def)
  }
next
  assume b: "backfill cached nl nr (loc, sec, rooms) = (loc', sec', rooms')"
  {
    assume "truthy loc"
    with b show "loc' = loc" by (rule backfill_keeps(1))
  }
  {
    assume "truthy sec"
    with b show "sec' = sec" by (rule backfill_keeps(2))
  }
  {
    assume "rooms \<noteq> None"
    with b show "rooms' = rooms" by (rule backfill_keeps(3))
  }
qed

theorem enrichment_fills_only_absent_fields_witness:
  "fst (scrape_card ex_card_A 1 ex_session) = Inr (Some ex_row_A) \<and>
   extract_location ex_card_A = Some (ascii ''Sector 1'') \<and>
   Location_Info ex_row_A = extract_location ex_card_A \<and>
   Sector ex_row_A = card_sector ex_card_A \<and>
   Property_Title ex_row_A = extract_title ex_card_A \<and>
   card_rooms ex_card_A = None \<and> Room_Number ex_row_A = Some 2"
proof -
  have a: "fst (scrape_card ex_card_A 1 ex_session) = Inr (Some ex_row_A)"
    using ex_scrape_A by simp
  have b: "extract_location ex_card_A \<noteq> None" "card_sector ex_card_A \<noteq> None"
    by (simp_all add: ex_A_fields)
  from a b enrichment_fills_only_absent_fields [of ex_card_A 1 ex_session ex_row_A]
  have "Location_Info ex_row_A = extract_location ex_card_A \<and>
      Sector ex_row_A = card_sector ex_card_A \<and>
      Property_Title ex_row_A = extract_title ex_card_A"
    by blast
  with a show ?thesis
    by (simp add: ex_A_fields ex_row_A_def)
qed

text \<open>
  Claim C10. When a card needs enrichment and the cache has no entry for its listing id,
  the entry stored is the result computed with the need flags of that card, by one detail
  fetch; a flag that was off leaves its keys out of the result. When the cache has an
  entry, the card gets that entry whatever its own flags are, the session is unchanged (no
  fetch), and no card ever replaces an entry. So a later card without a location, whose id
  was cached by a card that needed only rooms, keeps its location absent.
\<close>

theorem cache_holds_first_result:
  "(extract_listing_link c = Some link \<and> link \<noteq> [] \<and> contains (ascii ''/oferta'') link \<and>
    lid_of link = Some lid \<and> (need_location c \<or> need_rooms c) \<longrightarrow>
      (detail_cache s lid = None \<longrightarrow>
         detail_cache (snd (scrape_card c pn s)) lid =
           Some (fst (try_block (fst (goto (detail_page s) link))
                   (need_location c) (need_rooms c))) \<and>
         visited (detail_page (snd (scrape_card c pn s))) = visited (detail_page s) @ [link]) \<and>
      (\<forall>cached. detail_cache s lid = Some cached \<longrightarrow>
         snd (scrape_card c pn s) = s \<and>
         fst (scrape_card c pn s) =
           Inr (let r = make_row (Some lid) (extract_title c) (extract_price c)
                          (backfill cached (need_location c) (need_rooms c)
                             (extract_location c, card_sector c, card_rooms c))
                          (card_area c) (Some link) pn
                in if retained r then Some r else None))) \<and>
   (\<forall>cached. detail_cache s lid = Some cached \<longrightarrow>
      detail_cache (snd (scrape_card c' pn' s)) lid = Some cached) \<and>
   (\<not> nl \<longrightarrow> d_Location_Info (fst (try_block nav nl nr)) = None \<and>
      d_Sector (fst (try_block nav nl nr)) = None) \<and>
   (\<not> nr \<longrightarrow> d_Room_Number (fst (try_block nav nl nr)) = None) \<and>
   (extract_location c = None \<and> dict_get d_Location_Info cached' = None \<longrightarrow>
      fst (backfill cached' (need_location c) (need_rooms c)
             (extract_location c, card_sector c, card_rooms c)) = None)"
proof (intro conjI impI allI)
  assume a: "extract_listing_link c = Some link \<and> link \<noteq> [] \<and>
    contains (ascii ''/oferta'') link \<and> lid_of link = Some lid \<and>
    (need_location c \<or> need_rooms c)"
  then have eq: "scrape_card c pn s =
     (case cached_enrichment s lid link (need_location c) (need_rooms c) of
        (Inl e, s') \<Rightarrow> (Inl e, s')
      | (Inr cached, s') \<Rightarrow>
          (let r = make_row (Some lid) (extract_title c) (extract_price c)
                     (backfill cached (need_location c) (need_rooms c)
                        (extract_location c, card_sector c, card_rooms c))
                     (card_area c) (Some link) pn
           in (Inr (if retained r then Some r else None), s')))"
    by (intro scrape_card_enrich) auto
  {
    assume n: "detail_cache s lid = None"
    show "detail_cache (snd (scrape_card c pn s)) lid =
           Some (fst (try_block (fst (goto (detail_page s) link))
                   (need_location c) (need_rooms c)))"
      by (simp add: eq cached_enrichment_miss [OF n] Let_def)
    show "visited (detail_page (snd (scrape_card c pn s))) = visited (detail_page s) @ [link]"
      by (simp add: eq cached_enrichment_miss [OF n] Let_def)
  }
  {
    fix cached
    assume h: "detail_cache s lid = Some cached"
    show "snd (scrape_card c pn s) = s"
      by (simp add: eq cached_enrichment_hit [OF h] Let_def)
    show "fst (scrape_card c pn s) =
           Inr (let r = make_row (Some lid) (extract_title c) (extract_price c)
                          (backfill cached (need_location c) (need_rooms c)
                             (extract_location c, card_sector c, card_rooms c))
                          (card_area c) (Some link) pn
                in if retained r then Some r else None)"
      by (simp add: eq cached_enrichment_hit [OF h] Let_def)
  }
next
  fix cached
  assume "detail_cache s lid = Some cached"
  then show "detail_cache (snd (scrape_card c' pn' s)) lid = Some cached"
    by (rule scrape_card_cache_mono)
next
  assume "\<not> nl"
  then show "d_Location_Info (fst (try_block nav nl nr)) = None"
    "d_Sector (fst (try_block nav nl nr)) = None"
    by (simp_all add: try_block_flags)
next
  assume "\<not> nr"
  then show "d_Room_Number (fst (try_block nav nl nr)) = None"
    by (simp add: try_block_flags)
next
  assume "extract_location c = None \<and> dict_get d_Location_Info cached' = None"
  then show "fst (backfill cached' (need_location c) (need_rooms c)
             (extract_location c, card_sector c, card_rooms c)) = None"
    by (simp add: backfill_def py_or_def truthy_def)
qed

theorem cache_holds_first_result_witness:
  "detail_cache (snd (scrape_card ex_card_A 1 ex_session)) (ascii ''101'') = Some ex_rooms_only \<and>
   visited (detail_page (snd (scrape_card ex_card_A 1 ex_session))) = [ex_link] \<and>
   extract_location_from_detail ex_detail_view = Inr (Some (ascii ''Sector 3'')) \<and>
   extract_location ex_card_B = None \<and>
   scrape_card ex_card_B 1 (snd (scrape_card ex_card_A 1 ex_session)) =
     (Inr (Some ex_row_B), snd (scrape_card ex_card_A 1 ex_session)) \<and>
   Location_Info ex_row_B = None"
proof -
  let ?sA = "snd (scrape_card ex_card_A 1 ex_session)"
  have hA: "extract_listing_link ex_card_A = Some ex_link \<and> ex_link \<noteq> [] \<and>
      contains (ascii ''/oferta'') ex_link \<and> lid_of ex_link = Some (ascii ''101'') \<and>
      (need_location ex_card_A \<or> need_rooms ex_card_A)"
    by (simp add: ex_A_fields ex_ne ex_lid ex_needs)
  have hB: "extract_listing_link ex_card_B = Some ex_link \<and> ex_link \<noteq> [] \<and>
      contains (ascii ''/oferta'') ex_link \<and> lid_of ex_link = Some (ascii ''101'') \<and>
      (need_location ex_card_B \<or> need_rooms ex_card_B)"
    by (simp add: ex_B_fields ex_ne ex_lid ex_needs)
  have n: "detail_cache ex_session (ascii ''101'') = None"
    by (simp add: ex_session_def)
  have g: "\<And>n. responses (detail_page ex_session) n ex_link = Inr ex_detail_view"
    "visited (detail_page ex_session) = []"
    by (simp_all add: ex_session_def)
  from hA n cache_holds_first_result
    [where c = ex_card_A and link = ex_link and lid = "ascii ''101''" and s = ex_session
       and pn = 1]
  have "detail_cache ?sA (ascii ''101'') =
      Some (fst (try_block (fst (goto (detail_page ex_session) ex_link))
        (need_location ex_card_A) (need_rooms ex_card_A))) \<and>
    visited (detail_page ?sA) = visited (detail_page ex_session) @ [ex_link]"
    by blast
  then have A: "detail_cache ?sA (ascii ''101'') = Some ex_rooms_only"
    "visited (detail_page ?sA) = [ex_link]"
    by (simp_all add: g ex_needs ex_try_block_rooms)
  from hB A(1) cache_holds_first_result
    [where c = ex_card_B and link = ex_link and lid = "ascii ''101''" and s = ?sA and pn = 1]
  have "snd (scrape_card ex_card_B 1 ?sA) = ?sA \<and>
    fst (scrape_card ex_card_B 1 ?sA) =
      Inr (let r = make_row (Some (ascii ''101'')) (extract_title ex_card_B)
                     (extract_price ex_card_B)
                     (backfill ex_rooms_only (need_location ex_card_B) (need_rooms ex_card_B)
                        (extract_location ex_card_B, card_sector ex_card_B, card_rooms ex_card_B))
                     (card_area ex_card_B) (Some ex_link) 1
           in if retained r then Some r else None)"
    by blast
  then have "snd (scrape_card ex_card_B 1 ?sA) = ?sA \<and>
    fst (scrape_card ex_card_B 1 ?sA) = Inr (Some ex_row_B)"
    using ex_ne
    by (simp add: ex_B_fields ex_needs make_row_def backfill_def py_or_def dict_get_def
        retained_def truthy_def ex_row_B_def ex_rooms_only_def)
  then have B: "scrape_card ex_card_B 1 ?sA = (Inr (Some ex_row_B), ?sA)"
    by (metis prod.collapse)
  from A B show ?thesis
    by (simp add: ex_detail_location ex_B_fields ex_row_B_def)
qed

text \<open>
  Claim C1, as the code has it. Every row appended to the output table by a run has a
  non-empty link and at least one non-empty field among title, raw price and location;
  so has every row a page scrape returns. The test is made on the row after the
  enrichment backfill: a card that yields only a link produces a row exactly when the
  enrichment cached for its listing id supplies a location, which is then the row's
  location.
\<close>

theorem retention_invariant:
  "(\<forall>r \<in> set (output_csv (run jitter site detail_site)).
      truthy (Link r) \<and>
      (truthy (Property_Title r) \<or> truthy (Price_Raw r) \<or> truthy (Location_Info r))) \<and>
   ((\<forall>r \<in> set (output_csv st). retained r) \<longrightarrow>
      (\<forall>r \<in> set (output_csv (run_pages jitter st pns)). retained r)) \<and>
   (fst (scrape_page s pn) = Inr rows \<longrightarrow> (\<forall>r \<in> set rows. retained r)) \<and>
   (retained r \<longleftrightarrow>
      truthy (Link r) \<and>
      (truthy (Property_Title r) \<or> truthy (Price_Raw r) \<or> truthy (Location_Info r))) \<and>
   (fst (scrape_card c pn s) = Inr (Some r') \<and> extract_title c = None \<and>
    extract_price c = None \<and> extract_location c = None \<longrightarrow>
      (\<exists>link lid cached. extract_listing_link c = Some link \<and> lid_of link = Some lid \<and>
         detail_cache (snd (scrape_card c pn s)) lid = Some cached \<and>
         Location_Info r' = dict_get d_Location_Info cached \<and> truthy (Location_Info r')))"
proof (intro conjI impI)
  have "\<forall>r \<in> set (output_csv (run jitter site detail_site)). retained r"
    unfolding run_def by (rule run_pages_output) (simp add: initial_state_def)
  then show "\<forall>r \<in> set (output_csv (run jitter site detail_site)).
      truthy (Link r) \<and>
      (truthy (Property_Title r) \<or> truthy (Price_Raw r) \<or> truthy (Location_Info r))"
    by (simp add: retained_def)
  show "retained r \<longleftrightarrow>
      truthy (Link r) \<and>
      (truthy (Property_Title r) \<or> truthy (Price_Raw r) \<or> truthy (Location_Info r))"
    by (simp add: retained_def)
next
  assume "\<forall>r \<in> set (output_csv st). retained r"
  then show "\<forall>r \<in> set (output_csv (run_pages jitter st pns)). retained r"
    by (rule run_pages_output)
next
  assume "fst (scrape_page s pn) = Inr rows"
  then show "\<forall>r \<in> set rows. retained r"
    using scrape_page_rows [of s pn rows] by (simp add: good_row_def)
next
  assume "fst (scrape_card c pn s) = Inr (Some r') \<and> extract_title c = None \<and>
    extract_price c = None \<and> extract_location c = None"
  then show "\<exists>link lid cached. extract_listing_link c = Some link \<and> lid_of link = Some lid \<and>
         detail_cache (snd (scrape_card c pn s)) lid = Some cached \<and>
         Location_Info r' = dict_get d_Location_Info cached \<and> truthy (Location_Info r')"
    by (intro link_only_row) simp_all
qed

theorem retention_invariant_witness:
  "fst (scrape_page ex_session_page 1) = Inr [ex_row_link_only] \<and>
   retained ex_row_link_only \<and>
   (\<exists>cached. detail_cache (snd (scrape_card ex_card_link_only 1 ex_session)) (ascii ''101'') =
        Some cached \<and>
      Location_Info ex_row_link_only = dict_get d_Location_Info cached \<and>
      truthy (Location_Info ex_row_link_only))"
proof -
  have a: "fst (scrape_page ex_session_page 1) = Inr [ex_row_link_only]"
    by (rule ex_scrape_page)
  with retention_invariant [where s = ex_session_page and pn = 1 and rows = "[ex_row_link_only]"]
  have "\<forall>r \<in> set [ex_row_link_only]. retained r"
    by blast
  then have b: "retained ex_row_link_only"
    by simp
  have "fst (scrape_card ex_card_link_only 1 ex_session) = Inr (Some ex_row_link_only) \<and>
      extract_title ex_card_link_only = None \<and> extract_price ex_card_link_only = None \<and>
      extract_location ex_card_link_only = None"
    using ex_scrape_link_only by (simp add: ex_link_only_fields ex_row_link_only_def)
  with retention_invariant
    [where c = ex_card_link_only and s = ex_session and pn = 1 and r' = ex_row_link_only]
  have "\<exists>link lid cached. extract_listing_link ex_card_link_only = Some link \<and>
      lid_of link = Some lid \<and>
      detail_cache (snd (scrape_card ex_card_link_only 1 ex_session)) lid = Some cached \<and>
      Location_Info ex_row_link_only = dict_get d_Location_Info cached \<and>
      truthy (Location_Info ex_row_link_only)"
    by blast
  then have "\<exists>cached.
      detail_cache (snd (scrape_card ex_card_link_only 1 ex_session)) (ascii ''101'') =
        Some cached \<and>
      Location_Info ex_row_link_only = dict_get d_Location_Info cached \<and>
      truthy (Location_Info ex_row_link_only)"
    using ex_link_only_fields(1) ex_lid(1) by auto
  with a b show ?thesis
    by blast
qed

text \<open>
  The claim as stated fails in its second half: the card that yields only a link does
  produce an output row when the detail page shows a location.
\<close>

theorem retention_invariant_counterexample:
  "extract_listing_link ex_card_link_only = Some ex_link \<and>
   extract_title ex_card_link_only = None \<and>
   extract_price ex_card_link_only = None \<and>
   extract_location ex_card_link_only = None \<and>
   get_listing_cards ex_results_view = [ex_card_link_only] \<and>
   fst (scrape_page ex_session_page 1) = Inr [ex_row_link_only]"
  using ex_scrape_page
  by (simp add: ex_link_only_fields get_listing_cards_def ex_results_view_def)

text \<open>
  Claim C3. In every run no listing id is fetched twice: the ids of the links the detail
  tab was sent to are pairwise distinct, across all cards, pages and attempts. A lookup of
  an id that the cache holds returns the cached result and leaves the session, and so
  the detail tab, as it is; a lookup of an id it does not hold makes one fetch and stores
  the result; and an entry, once stored, stays the same until the end of the run.
\<close>

theorem one_detail_fetch_per_listing:
  "distinct (map lid_of (visited (detail_page (rs_session (run jitter site detail_site))))) \<and>
   (fetch_inv (rs_session st) \<longrightarrow> fetch_inv (rs_session (run_pages jitter st pns))) \<and>
   (detail_cache (rs_session st) lid = Some r \<longrightarrow>
      detail_cache (rs_session (run_pages jitter st pns)) lid = Some r) \<and>
   (detail_cache s lid = Some r \<longrightarrow> cached_enrichment s lid link nl nr = (Inr r, s)) \<and>
   (detail_cache s lid = None \<longrightarrow>
      visited (detail_page (snd (cached_enrichment s lid link nl nr))) =
        visited (detail_page s) @ [link] \<and>
      detail_cache (snd (cached_enrichment s lid link nl nr)) lid =
        Some (fst (try_block (fst (goto (detail_page s) link)) nl nr)))"
proof (intro conjI impI)
  have "fetch_inv (rs_session (run jitter site detail_site))"
    using run_pages_evolves [of "initial_state site detail_site" jitter "[1..<MAX_PAGES + 1]"]
      initial_fetch_inv [of site detail_site]
    by (simp add: run_def evolves_def)
  then show "distinct (map lid_of (visited (detail_page (rs_session (run jitter site detail_site)))))"
    by (simp add: fetch_inv_def)
next
  assume "fetch_inv (rs_session st)"
  then show "fetch_inv (rs_session (run_pages jitter st pns))"
    using run_pages_evolves [of st jitter pns] by (simp add: evolves_def)
next
  assume "detail_cache (rs_session st) lid = Some r"
  then show "detail_cache (rs_session (run_pages jitter st pns)) lid = Some r"
    using run_pages_evolves [of st jitter pns] by (simp add: evolves_def)
next
  assume "detail_cache s lid = Some r"
  then show "cached_enrichment s lid link nl nr = (Inr r, s)"
    by (rule cached_enrichment_hit)
next
  assume n: "detail_cache s lid = None"
  show "visited (detail_page (snd (cached_enrichment s lid link nl nr))) =
        visited (detail_page s) @ [link]"
    by (simp add: cached_enrichment_miss [OF n])
  show "detail_cache (snd (cached_enrichment s lid link nl nr)) lid =
        Some (fst (try_block (fst (goto (detail_page s) link)) nl nr))"
    by (simp add: cached_enrichment_miss [OF n])
qed

theorem one_detail_fetch_per_listing_witness:
  "fetch_inv (rs_session ex_state) \<and>
   fetch_inv (rs_session (run_pages (\<lambda>_ _. 0) ex_state [1, 2])) \<and>
   detail_cache (snd (scrape_card ex_card_A 1 ex_session)) (ascii ''101'') = Some ex_rooms_only \<and>
   cached_enrichment (snd (scrape_card ex_card_A 1 ex_session)) (ascii ''101'') ex_link True True =
     (Inr ex_rooms_only, snd (scrape_card ex_card_A 1 ex_session))"
proof -
  have a: "fetch_inv (rs_session ex_state)"
    by (simp add: fetch_inv_def ex_state_def ex_session_def)
  with one_detail_fetch_per_listing [where st = ex_state and jitter = "\<lambda>_ _. 0" and pns = "[1, 2]"]
  have b: "fetch_inv (rs_session (run_pages (\<lambda>_ _. 0) ex_state [1, 2]))"
    by blast
  have c: "detail_cache (snd (scrape_card ex_card_A 1 ex_session)) (ascii ''101'') =
      Some ex_rooms_only"
    using ex_scrape_A by simp
  with one_detail_fetch_per_listing
    [where s = "snd (scrape_card ex_card_A 1 ex_session)" and lid = "ascii ''101''"
       and r = ex_rooms_only and link = ex_link and nl = True and nr = True]
  have "cached_enrichment (snd (scrape_card ex_card_A 1 ex_session)) (ascii ''101'') ex_link
      True True = (Inr ex_rooms_only, snd (scrape_card ex_card_A 1 ex_session))"
    by blast
  with a b c show ?thesis
    by blast
qed

text \<open>
  Claim C4. In every run the rows appended to the output table are the rows the page
  scrapes returned, in order, without those whose listing id already occurred in an
  earlier row, on the same page or on an earlier one: the first row of an id is kept, the
  later ones are dropped, and a row without id is always kept. Every row a run produces
  has a non-empty id. For rows fed to the deduplication directly, on one page or across
  two, the same holds as long as no id is the empty string.
\<close>

theorem dedup_keeps_first:
  "output_csv (run jitter site detail_site) =
     first_occurrences (produced (run jitter site detail_site)) \<and>
   (\<forall>r \<in> set (produced (run jitter site detail_site)).
      \<exists>lid. listing_id r = Some lid \<and> lid \<noteq> []) \<and>
   (dedup_inv st \<longrightarrow> dedup_inv (run_pages jitter st pns)) \<and>
   ((\<forall>r \<in> set rows. listing_id r \<noteq> Some []) \<longrightarrow>
      fst (dedup rows {} []) = first_occurrences rows) \<and>
   ((\<forall>r \<in> set (p1 @ p2). listing_id r \<noteq> Some []) \<longrightarrow>
      fst (dedup p1 {} []) @ fst (dedup p2 (snd (dedup p1 {} [])) []) =
        first_occurrences (p1 @ p2))"
proof (intro conjI impI)
  have i: "dedup_inv (run jitter site detail_site)"
    unfolding run_def by (intro run_pages_dedup_inv initial_dedup_inv)
  then show "output_csv (run jitter site detail_site) =
     first_occurrences (produced (run jitter site detail_site))"
    by (simp add: dedup_inv_def)
  from i show "\<forall>r \<in> set (produced (run jitter site detail_site)).
      \<exists>lid. listing_id r = Some lid \<and> lid \<noteq> []"
    by (simp add: dedup_inv_def good_row_def)
next
  assume "dedup_inv st"
  then show "dedup_inv (run_pages jitter st pns)"
    by (rule run_pages_dedup_inv)
next
  assume "\<forall>r \<in> set rows. listing_id r \<noteq> Some []"
  then have "dedup rows {} [] =
      ([] @ keep_from [] rows, {l. Some l \<in> set ([] @ map listing_id rows)})"
    by (rule dedup_keep_from) simp
  then show "fst (dedup rows {} []) = first_occurrences rows"
    by (simp add: first_occurrences_def)
next
  assume a: "\<forall>r \<in> set (p1 @ p2). listing_id r \<noteq> Some []"
  then have "\<forall>r \<in> set p1. listing_id r \<noteq> Some []"
    by simp
  then have d1: "dedup p1 {} [] =
      ([] @ keep_from [] p1, {l. Some l \<in> set ([] @ map listing_id p1)})"
    by (rule dedup_keep_from) simp
  from a have "\<forall>r \<in> set p2. listing_id r \<noteq> Some []"
    by simp
  then have d2: "dedup p2 {l. Some l \<in> set (map listing_id p1)} [] =
      ([] @ keep_from (map listing_id p1) p2,
       {l. Some l \<in> set (map listing_id p1 @ map listing_id p2)})"
    by (rule dedup_keep_from) simp
  have s: "snd (dedup p1 {} []) = {l. Some l \<in> set (map listing_id p1)}"
    by (simp only: d1 snd_conv append_Nil)
  have f1: "fst (dedup p1 {} []) = keep_from [] p1"
    by (simp only: d1 fst_conv append_Nil)
  have f2: "fst (dedup p2 (snd (dedup p1 {} [])) []) = keep_from (map listing_id p1) p2"
    unfolding s by (simp only: d2 fst_conv append_Nil)
  show "fst (dedup p1 {} []) @ fst (dedup p2 (snd (dedup p1 {} [])) []) =
        first_occurrences (p1 @ p2)"
    by (simp only: f1 f2 first_occurrences_def keep_from_append append_Nil)
qed

theorem dedup_keeps_first_witness:
  "fst (dedup [ex_row_A, ex_row_B] {} []) = [ex_row_A] \<and>
   fst (dedup [ex_row_A] {} []) @ fst (dedup [ex_row_B] (snd (dedup [ex_row_A] {} [])) []) =
     [ex_row_A] \<and>
   fst (dedup [ex_row_A\<lparr>listing_id := None\<rparr>, ex_row_B\<lparr>listing_id := None\<rparr>] {} []) =
     [ex_row_A\<lparr>listing_id := None\<rparr>, ex_row_B\<lparr>listing_id := None\<rparr>]"
proof -
  have h: "\<forall>r \<in> set [ex_row_A, ex_row_B]. listing_id r \<noteq> Some []"
    "\<forall>r \<in> set ([ex_row_A] @ [ex_row_B]). listing_id r \<noteq> Some []"
    "\<forall>r \<in> set [ex_row_A\<lparr>listing_id := None\<rparr>, ex_row_B\<lparr>listing_id := None\<rparr>].
       listing_id r \<noteq> Some []"
    using ex_ne by (simp_all add: ex_row_A_def ex_row_B_def)
  from h(1) dedup_keeps_first [where rows = "[ex_row_A, ex_row_B]"]
  have "fst (dedup [ex_row_A, ex_row_B] {} []) = first_occurrences [ex_row_A, ex_row_B]"
    by blast
  then have a: "fst (dedup [ex_row_A, ex_row_B] {} []) = [ex_row_A]"
    by (simp add: first_occurrences_def ex_row_A_def ex_row_B_def)
  from h(2) dedup_keeps_first [where ?p1.0 = "[ex_row_A]" and ?p2.0 = "[ex_row_B]"]
  have "fst (dedup [ex_row_A] {} []) @ fst (dedup [ex_row_B] (snd (dedup [ex_row_A] {} [])) []) =
      first_occurrences ([ex_row_A] @ [ex_row_B])"
    by blast
  then have b: "fst (dedup [ex_row_A] {} []) @
      fst (dedup [ex_row_B] (snd (dedup [ex_row_A] {} [])) []) = [ex_row_A]"
    by (simp add: first_occurrences_def ex_row_A_def ex_row_B_def)
  from h(3) dedup_keeps_first
    [where rows = "[ex_row_A\<lparr>listing_id := None\<rparr>, ex_row_B\<lparr>listing_id := None\<rparr>]"]
  have "fst (dedup [ex_row_A\<lparr>listing_id := None\<rparr>, ex_row_B\<lparr>listing_id := None\<rparr>] {} []) =
      first_occurrences [ex_row_A\<lparr>listing_id := None\<rparr>, ex_row_B\<lparr>listing_id := None\<rparr>]"
    by blast
  then have c: "fst (dedup [ex_row_A\<lparr>listing_id := None\<rparr>, ex_row_B\<lparr>listing_id := None\<rparr>] {} []) =
      [ex_row_A\<lparr>listing_id := None\<rparr>, ex_row_B\<lparr>listing_id := None\<rparr>]"
    by (simp add: first_occurrences_def)
  from a b c show ?thesis
    by blast
qed

text \<open>
  Claim C8. A run goes through the pages 1 to the maximum in order, and the report of
  each page is the one the retry loop makes from the session the earlier pages left.
  The loop attempts the scrape; a success ends it with the rows returned; after a
  failure it sleeps twice the attempt number plus the jitter and attempts again, up to
  three attempts; after three failures the page goes on with no rows. The rows of the
  page then go through deduplication and are appended, and the run goes on to the next
  page whatever failed, so a run has a report for every page.
\<close>

theorem retry_then_continue:
  "run jitter site detail_site =
     run_pages jitter (initial_state site detail_site) [1..<MAX_PAGES + 1] \<and>
   run_pages jitter st [] = st \<and>
   run_pages jitter st (pn # pns) = run_pages jitter (run_page jitter st pn) pns \<and>
   (case retry_loop jitter (rs_session st) pn [1, 2, 3] of
      (page_rows, s', failed, sleeps) \<Rightarrow>
        rs_session (run_page jitter st pn) = s' \<and>
        reports (run_page jitter st pn) =
          reports st @
            [\<lparr>rp_page = pn, rp_failed = failed, rp_sleeps = sleeps, rp_rows = page_rows,
              rp_added = length (fst (dedup page_rows (seen_ids st) []))\<rparr>] \<and>
        output_csv (run_page jitter st pn) =
          output_csv st @ fst (dedup page_rows (seen_ids st) []) \<and>
        seen_ids (run_page jitter st pn) = snd (dedup page_rows (seen_ids st) [])) \<and>
   retry_loop jitter s pn [1, 2, 3] =
     (let s1 = snd (scrape_page s pn);
          s2 = snd (scrape_page s1 pn);
          s3 = snd (scrape_page s2 pn)
      in case fst (scrape_page s pn) of
           Inr rows \<Rightarrow> (rows, s1, [], [])
         | Inl e1 \<Rightarrow>
             (case fst (scrape_page s1 pn) of
                Inr rows \<Rightarrow> (rows, s2, [1], [2 + jitter pn 1])
              | Inl e2 \<Rightarrow>
                  (case fst (scrape_page s2 pn) of
                     Inr rows \<Rightarrow> (rows, s3, [1, 2], [2 + jitter pn 1, 4 + jitter pn 2])
                   | Inl e3 \<Rightarrow>
                       ([], s3, [1, 2, 3],
                        [2 + jitter pn 1, 4 + jitter pn 2, 6 + jitter pn 3])))) \<and>
   (\<forall>i < length pns.
      reports (run_pages jitter st pns) ! (length (reports st) + i) =
        last (reports (run_page jitter (run_pages jitter st (take i pns)) (pns ! i)))) \<and>
   length (reports (run jitter site detail_site)) = MAX_PAGES \<and>
   (\<forall>i < MAX_PAGES.
      reports (run jitter site detail_site) ! i =
        last (reports (run_page jitter
                (run_pages jitter (initial_state site detail_site) [1..<Suc i]) (Suc i)))) \<and>
   map rp_page (reports (run jitter site detail_site)) = [1..<MAX_PAGES + 1] \<and>
   (\<forall>rp \<in> set (reports (run jitter site detail_site)). report_ok jitter rp) \<and>
   (\<exists>new. reports (run_pages jitter st pns) = reports st @ new \<and> map rp_page new = pns \<and>
      (\<forall>rp \<in> set new. report_ok jitter rp)) \<and>
   (fst (scrape_page s pn) = Inr rows \<longrightarrow>
      retry_loop jitter s pn (a # as) = (rows, snd (scrape_page s pn), [], [])) \<and>
   (fst (scrape_page s pn) = Inl e \<longrightarrow>
      retry_loop jitter s pn (a # as) =
        (case retry_loop jitter (snd (scrape_page s pn)) pn as of
           (rows', s'', failed, sleeps) \<Rightarrow>
             (rows', s'', a # failed, (2 * real a + jitter pn a) # sleeps))) \<and>
   retry_loop jitter s pn [] = ([], s, [], [])"
proof (intro conjI impI)
  show "run jitter site detail_site =
     run_pages jitter (initial_state site detail_site) [1..<MAX_PAGES + 1]"
    by (rule run_def)
  show "run_pages jitter st [] = st"
    "run_pages jitter st (pn # pns) = run_pages jitter (run_page jitter st pn) pns"
    by (rule run_pages_simps)+
  show "case retry_loop jitter (rs_session st) pn [1, 2, 3] of
      (page_rows, s', failed, sleeps) \<Rightarrow>
        rs_session (run_page jitter st pn) = s' \<and>
        reports (run_page jitter st pn) =
          reports st @
            [\<lparr>rp_page = pn, rp_failed = failed, rp_sleeps = sleeps, rp_rows = page_rows,
              rp_added = length (fst (dedup page_rows (seen_ids st) []))\<rparr>] \<and>
        output_csv (run_page jitter st pn) =
          output_csv st @ fst (dedup page_rows (seen_ids st) []) \<and>
        seen_ids (run_page jitter st pn) = snd (dedup page_rows (seen_ids st) [])"
    by (simp only: case_prod_beta run_page_fields)
  show "retry_loop jitter s pn [1, 2, 3] =
     (let s1 = snd (scrape_page s pn);
          s2 = snd (scrape_page s1 pn);
          s3 = snd (scrape_page s2 pn)
      in case fst (scrape_page s pn) of
           Inr rows \<Rightarrow> (rows, s1, [], [])
         | Inl e1 \<Rightarrow>
             (case fst (scrape_page s1 pn) of
                Inr rows \<Rightarrow> (rows, s2, [1], [2 + jitter pn 1])
              | Inl e2 \<Rightarrow>
                  (case fst (scrape_page s2 pn) of
                     Inr rows \<Rightarrow> (rows, s3, [1, 2], [2 + jitter pn 1, 4 + jitter pn 2])
                   | Inl e3 \<Rightarrow>
                       ([], s3, [1, 2, 3],
                        [2 + jitter pn 1, 4 + jitter pn 2, 6 + jitter pn 3]))))"
    by (rule retry_loop_three)
  show d: "\<forall>i < length pns.
      reports (run_pages jitter st pns) ! (length (reports st) + i) =
        last (reports (run_page jitter (run_pages jitter st (take i pns)) (pns ! i)))"
    by (simp add: run_pages_report_nth)
  show "length (reports (run jitter site detail_site)) = MAX_PAGES"
    by (simp add: run_def length_reports_run_pages initial_state_def)
  show "\<forall>i < MAX_PAGES.
      reports (run jitter site detail_site) ! i =
        last (reports (run_page jitter
                (run_pages jitter (initial_state site detail_site) [1..<Suc i]) (Suc i)))"
  proof (intro allI impI)
    fix i
    assume i: "i < MAX_PAGES"
    then have l: "i < length [1..<MAX_PAGES + 1]"
      by simp
    have t1: "take i [1..<MAX_PAGES + 1] = [1..<Suc i]"
      using i take_upt [of 1 i "MAX_PAGES + 1"] by (simp del: upt_Suc)
    have t2: "[1..<MAX_PAGES + 1] ! i = Suc i"
      using i nth_upt [of 1 i "MAX_PAGES + 1"] by (simp del: upt_Suc)
    have z: "length (reports (initial_state site detail_site)) + i = i"
      by (simp add: initial_state_def)
    from run_pages_report_nth [OF l, of jitter "initial_state site detail_site"]
    show "reports (run jitter site detail_site) ! i =
        last (reports (run_page jitter
                (run_pages jitter (initial_state site detail_site) [1..<Suc i]) (Suc i)))"
      unfolding run_def t1 t2 z .
  qed
next
  obtain new where new:
    "reports (run jitter site detail_site) = reports (initial_state site detail_site) @ new"
    "map rp_page new = [1..<MAX_PAGES + 1]" "\<forall>rp \<in> set new. report_ok jitter rp"
    unfolding run_def using run_pages_reports by blast
  then have r: "reports (run jitter site detail_site) = new"
    by (simp add: initial_state_def)
  from r new(2) show "map rp_page (reports (run jitter site detail_site)) = [1..<MAX_PAGES + 1]"
    by simp
  from r new(3) show "\<forall>rp \<in> set (reports (run jitter site detail_site)). report_ok jitter rp"
    by simp
  show "\<exists>new. reports (run_pages jitter st pns) = reports st @ new \<and> map rp_page new = pns \<and>
      (\<forall>rp \<in> set new. report_ok jitter rp)"
    by (rule run_pages_reports)
  show "retry_loop jitter s pn [] = ([], s, [], [])"
    by (simp add: retry_loop.simps)
next
  assume "fst (scrape_page s pn) = Inr rows"
  then show "retry_loop jitter s pn (a # as) = (rows, snd (scrape_page s pn), [], [])"
    by (cases "scrape_page s pn") (simp add: retry_loop.simps)
next
  assume "fst (scrape_page s pn) = Inl e"
  then show "retry_loop jitter s pn (a # as) =
        (case retry_loop jitter (snd (scrape_page s pn)) pn as of
           (rows', s'', failed, sleeps) \<Rightarrow>
             (rows', s'', a # failed, (2 * real a + jitter pn a) # sleeps))"
    by (cases "scrape_page s pn") (simp add: retry_loop.simps Let_def)
qed

theorem retry_then_continue_witness:
  "fst (scrape_page ex_session 1) = Inl OtherException \<and>
   retry_loop (\<lambda>_ _. 0) ex_session 1 [1, 2, 3] =
     ([], snd (scrape_page (snd (scrape_page (snd (scrape_page ex_session 1)) 1)) 1),
      [1, 2, 3], [2, 4, 6]) \<and>
   reports (run_pages (\<lambda>_ _. 0) ex_state [1]) =
     [\<lparr>rp_page = 1, rp_failed = [1, 2, 3], rp_sleeps = [2, 4, 6], rp_rows = [],
       rp_added = 0\<rparr>] \<and>
   reports (run_pages (\<lambda>_ _. 0) ex_state [1]) ! 0 =
     \<lparr>rp_page = 1, rp_failed = [1, 2, 3], rp_sleeps = [2, 4, 6], rp_rows = [], rp_added = 0\<rparr> \<and>
   fst (scrape_page ex_session_retry 1) = Inl PlaywrightTimeoutError \<and>
   retry_loop (\<lambda>_ _. 0) ex_session_retry 1 [1, 2, 3] =
     ([ex_row_link_only], snd (scrape_page (snd (scrape_page ex_session_retry 1)) 1), [1], [2])"
proof -
  let ?j = "(\<lambda>_ _. 0) :: nat \<Rightarrow> nat \<Rightarrow> real"
  let ?s1 = "snd (scrape_page ex_session 1)"
  let ?s2 = "snd (scrape_page ?s1 1)"
  let ?s3 = "snd (scrape_page ?s2 1)"
  let ?rp = "\<lparr>rp_page = 1, rp_failed = [1, 2, 3], rp_sleeps = [2, 4, 6], rp_rows = [],
      rp_added = 0\<rparr>"
  have r0: "responses (page ex_session) = (\<lambda>_ _. Inl OtherException)"
    by (simp add: ex_session_def)
  note n0 = scrape_page_nav_fails(1,2) [OF r0, of 1]
  note n1 = scrape_page_nav_fails(1,2) [OF n0(2), of 1]
  note n2 = scrape_page_nav_fails(1,2) [OF n1(2), of 1]
  have "retry_loop ?j ex_session 1 [1, 2, 3] =
     (let s1 = snd (scrape_page ex_session 1);
          s2 = snd (scrape_page s1 1);
          s3 = snd (scrape_page s2 1)
      in case fst (scrape_page ex_session 1) of
           Inr rows \<Rightarrow> (rows, s1, [], [])
         | Inl e1 \<Rightarrow>
             (case fst (scrape_page s1 1) of
                Inr rows \<Rightarrow> (rows, s2, [1], [2 + ?j 1 1])
              | Inl e2 \<Rightarrow>
                  (case fst (scrape_page s2 1) of
                     Inr rows \<Rightarrow> (rows, s3, [1, 2], [2 + ?j 1 1, 4 + ?j 1 2])
                   | Inl e3 \<Rightarrow>
                       ([], s3, [1, 2, 3], [2 + ?j 1 1, 4 + ?j 1 2, 6 + ?j 1 3]))))"
    using retry_then_continue [where jitter = ?j and s = ex_session and pn = 1] by blast
  then have a: "retry_loop ?j ex_session 1 [1, 2, 3] = ([], ?s3, [1, 2, 3], [2, 4, 6])"
    by (simp only: Let_def n0(1) n1(1) n2(1) sum.case) simp
  have "case retry_loop ?j (rs_session ex_state) 1 [1, 2, 3] of
      (page_rows, s', failed, sleeps) \<Rightarrow>
        rs_session (run_page ?j ex_state 1) = s' \<and>
        reports (run_page ?j ex_state 1) =
          reports ex_state @
            [\<lparr>rp_page = 1, rp_failed = failed, rp_sleeps = sleeps, rp_rows = page_rows,
              rp_added = length (fst (dedup page_rows (seen_ids ex_state) []))\<rparr>] \<and>
        output_csv (run_page ?j ex_state 1) =
          output_csv ex_state @ fst (dedup page_rows (seen_ids ex_state) []) \<and>
        seen_ids (run_page ?j ex_state 1) = snd (dedup page_rows (seen_ids ex_state) [])"
    by (rule retry_then_continue [where jitter = ?j and st = ex_state and pn = 1,
          THEN conjunct2, THEN conjunct2, THEN conjunct2, THEN conjunct1])
  moreover have "rs_session ex_state = ex_session" "reports ex_state = []"
    by (simp_all add: ex_state_def)
  ultimately have b: "reports (run_page ?j ex_state 1) = [?rp]"
    by (simp only: a prod.case) simp
  have "run_pages ?j ex_state [1] = run_pages ?j (run_page ?j ex_state 1) []"
    using retry_then_continue [where jitter = ?j and st = ex_state and pn = 1 and pns = "[]"]
    by blast
  also have "\<dots> = run_page ?j ex_state 1"
    using retry_then_continue [where jitter = ?j and st = "run_page ?j ex_state 1"] by blast
  finally have c: "reports (run_pages ?j ex_state [1]) = [?rp]"
    using b by simp
  have "\<forall>i < length [1 :: nat].
      reports (run_pages ?j ex_state [1]) ! (length (reports ex_state) + i) =
        last (reports (run_page ?j (run_pages ?j ex_state (take i [1])) ([1] ! i)))"
    using retry_then_continue [where jitter = ?j and st = ex_state and pns = "[1]"] by blast
  then have "reports (run_pages ?j ex_state [1]) ! (length (reports ex_state) + 0) =
        last (reports (run_page ?j (run_pages ?j ex_state (take 0 [1])) ([1] ! 0)))"
    by simp
  then have d: "reports (run_pages ?j ex_state [1]) ! 0 = ?rp"
    using b by (simp add: ex_state_def run_pages_simps)
  let ?t1 = "snd (scrape_page ex_session_retry 1)"
  have "retry_loop ?j ex_session_retry 1 [1, 2, 3] =
     (let s1 = snd (scrape_page ex_session_retry 1);
          s2 = snd (scrape_page s1 1);
          s3 = snd (scrape_page s2 1)
      in case fst (scrape_page ex_session_retry 1) of
           Inr rows \<Rightarrow> (rows, s1, [], [])
         | Inl e1 \<Rightarrow>
             (case fst (scrape_page s1 1) of
                Inr rows \<Rightarrow> (rows, s2, [1], [2 + ?j 1 1])
              | Inl e2 \<Rightarrow>
                  (case fst (scrape_page s2 1) of
                     Inr rows \<Rightarrow> (rows, s3, [1, 2], [2 + ?j 1 1, 4 + ?j 1 2])
                   | Inl e3 \<Rightarrow>
                       ([], s3, [1, 2, 3], [2 + ?j 1 1, 4 + ?j 1 2, 6 + ?j 1 3]))))"
    using retry_then_continue [where jitter = ?j and s = ex_session_retry and pn = 1] by blast
  then have e: "retry_loop ?j ex_session_retry 1 [1, 2, 3] =
      ([ex_row_link_only], snd (scrape_page ?t1 1), [1], [2])"
    by (simp only: Let_def ex_retry_first_fails sum.case) simp
  from n0(1) a c d ex_retry_first_fails(1) e show ?thesis
    by blast
qed

end
